theory Spec2Isabelle
  imports Complex_Main
begin

section \<open>Stochastic RSI: the indicator pipeline of src/indicators/stoch\_rsi.py\<close>

text \<open>
  The module computes, from a list of closing prices, Wilder's RSI, the stochastic
  transform of the RSI (raw %K), and two simple moving averages (%K and %D).

  Numbers: Python floats are modelled by the reals, so rounding, overflow to
  infinity and NaN are outside the model. Python integers (the four periods, list
  indices) are \<open>int\<close>. An optional float is a \<open>real option\<close>.
  Every exception the interpreter can raise in this code (an index out of range, a
  division by zero, \<open>min\<close>/\<open>max\<close> of an empty list, arithmetic on
  \<open>None\<close>) is a value of \<open>py_error\<close>, and every function returns
  \<open>py_error + 'a\<close>.
\<close>

subsection \<open>Python primitives\<close>

datatype py_error = IndexError | ZeroDivisionError | ValueError | TypeError

definition ebind :: "py_error + 'a \<Rightarrow> ('a \<Rightarrow> py_error + 'b) \<Rightarrow> py_error + 'b" where
  "ebind m f = (case m of Inl e \<Rightarrow> Inl e | Inr x \<Rightarrow> f x)"

text \<open>\<open>xs[i]\<close>: a negative index counts from the end; out of range raises.\<close>

definition py_index :: "nat \<Rightarrow> int \<Rightarrow> py_error + nat" where
  "py_index n i =
     (let j = (if i < 0 then int n + i else i)
      in if 0 \<le> j \<and> j < int n then Inr (nat j) else Inl IndexError)"

definition py_get :: "'a list \<Rightarrow> int \<Rightarrow> py_error + 'a" where
  "py_get xs i = ebind (py_index (length xs) i) (\<lambda>j. Inr (xs ! j))"

text \<open>\<open>xs[i] = v\<close>, returning the updated list.\<close>

definition py_set :: "'a list \<Rightarrow> int \<Rightarrow> 'a \<Rightarrow> py_error + 'a list" where
  "py_set xs i v = ebind (py_index (length xs) i) (\<lambda>j. Inr (xs[j := v]))"

text \<open>\<open>xs[:p]\<close>: a negative stop counts from the end.\<close>

definition py_prefix :: "'a list \<Rightarrow> int \<Rightarrow> 'a list" where
  "py_prefix xs p = (if p < 0 then take (nat (int (length xs) + p)) xs else take (nat p) xs)"

text \<open>\<open>range(a, b)\<close>: the integers from \<open>a\<close> up to \<open>b - 1\<close>, none when \<open>b \<le> a\<close>.\<close>

definition py_range :: "int \<Rightarrow> int \<Rightarrow> int list" where
  "py_range a b = map (\<lambda>n. a + int n) [0..<nat (b - a)]"

text \<open>Float division: a zero divisor raises.\<close>

definition py_div :: "real \<Rightarrow> real \<Rightarrow> py_error + real" where
  "py_div a b = (if b = 0 then Inl ZeroDivisionError else Inr (a / b))"

text \<open>\<open>min(xs)\<close> and \<open>max(xs)\<close> of a list: the empty list raises.\<close>

definition py_min :: "real list \<Rightarrow> py_error + real" where
  "py_min xs = (case xs of [] \<Rightarrow> Inl ValueError | y # ys \<Rightarrow> Inr (fold min ys y))"

definition py_max :: "real list \<Rightarrow> py_error + real" where
  "py_max xs = (case xs of [] \<Rightarrow> Inl ValueError | y # ys \<Rightarrow> Inr (fold max ys y))"

text \<open>
  A \<open>for\<close> loop over a list of indices: the body takes the index and the loop's
  variables and returns the new variables; the first exception ends the loop.
\<close>

fun for_loop :: "'i list \<Rightarrow> ('i \<Rightarrow> 's \<Rightarrow> py_error + 's) \<Rightarrow> 's \<Rightarrow> py_error + 's" where
  "for_loop [] body s = Inr s"
| "for_loop (i # is) body s = ebind (body i s) (for_loop is body)"

subsection \<open>Data\<close>

text \<open>
  \<open>StochRSIValue\<close>: the fields \<open>k\<close>, \<open>d\<close>, \<open>rsi\<close> of the source, prefixed
  so that they do not capture the variables of the same names.
\<close>

record StochRSIValue =
  val_k :: "real option"
  val_d :: "real option"
  val_rsi :: "real option"

text \<open>The calculator object: the four attributes set by \<open>__init__\<close>.\<close>

record StochasticRSICalculator =
  rsi_length :: int
  stoch_length :: int
  k_smooth :: int
  d_smooth :: int

subsection \<open>RSI stage (\<open>_calculate_rsi\<close>)\<close>

text \<open>\<open>deltas = [closes[i] - closes[i-1] for i in range(1, len(closes))]\<close>\<close>

definition deltas_of :: "real list \<Rightarrow> py_error + real list" where
  "deltas_of closes =
     for_loop (py_range 1 (int (length closes)))
       (\<lambda>i acc. ebind (py_get closes i) (\<lambda>a.
                 ebind (py_get closes (i - 1)) (\<lambda>b. Inr (acc @ [a - b]))))
       []"

text \<open>
  The block the source writes twice (for index \<open>period\<close> and inside the loop):
  \<^verbatim>\<open>
  if avg_loss == 0:
      rsi_values[i] = 100 if avg_gain > 0 else 0
  else:
      rs = avg_gain / avg_loss
      rsi_values[i] = 100 - (100 / (1 + rs))
  \<close>
\<close>

definition rsi_value :: "real \<Rightarrow> real \<Rightarrow> py_error + real" where
  "rsi_value avg_gain avg_loss =
     (if avg_loss = 0 then Inr (if avg_gain > 0 then 100 else 0)
      else ebind (py_div avg_gain avg_loss) (\<lambda>rs.
           ebind (py_div 100 (1 + rs)) (\<lambda>q. Inr (100 - q))))"

text \<open>The loop variables of the RSI stage: \<open>(avg_gain, avg_loss, rsi_values)\<close>.\<close>

type_synonym rsi_state = "real \<times> real \<times> real option list"

text \<open>The seed: the plain means of the first \<open>period\<close> gains and losses, and index \<open>period\<close>.\<close>

definition rsi_seed :: "real list \<Rightarrow> real list \<Rightarrow> int \<Rightarrow> nat \<Rightarrow> py_error + rsi_state" where
  "rsi_seed gains losses period n =
     ebind (py_div (sum_list (py_prefix gains period)) (real_of_int period)) (\<lambda>avg_gain.
     ebind (py_div (sum_list (py_prefix losses period)) (real_of_int period)) (\<lambda>avg_loss.
     ebind (rsi_value avg_gain avg_loss) (\<lambda>v.
     ebind (py_set (replicate n None) period (Some v)) (\<lambda>rsi_values.
     Inr (avg_gain, avg_loss, rsi_values)))))"

text \<open>One round of Wilder's smoothing, the body of \<open>for i in range(period + 1, len(closes))\<close>.\<close>

definition rsi_step :: "real list \<Rightarrow> real list \<Rightarrow> int \<Rightarrow> int \<Rightarrow> rsi_state \<Rightarrow> py_error + rsi_state" where
  "rsi_step gains losses period i st =
     (case st of (avg_gain, avg_loss, rsi_values) \<Rightarrow>
       ebind (py_get gains (i - 1)) (\<lambda>g.
       ebind (py_div (avg_gain * real_of_int (period - 1) + g) (real_of_int period)) (\<lambda>avg_gain'.
       ebind (py_get losses (i - 1)) (\<lambda>l.
       ebind (py_div (avg_loss * real_of_int (period - 1) + l) (real_of_int period)) (\<lambda>avg_loss'.
       ebind (rsi_value avg_gain' avg_loss') (\<lambda>v.
       ebind (py_set rsi_values i (Some v)) (\<lambda>rsi_values'.
       Inr (avg_gain', avg_loss', rsi_values'))))))))"

text \<open>
  The loop variables after the rounds for the indices \<open>period + 1 .. stop - 1\<close>; the
  stage runs it with \<open>stop = len(closes)\<close>.
\<close>

definition rsi_run :: "real list \<Rightarrow> int \<Rightarrow> int \<Rightarrow> py_error + rsi_state" where
  "rsi_run closes period stop =
     ebind (deltas_of closes) (\<lambda>deltas.
       let gains = map (\<lambda>d. max d 0) deltas;
           losses = map (\<lambda>d. \<bar>min d 0\<bar>) deltas
       in ebind (rsi_seed gains losses period (length closes))
            (for_loop (py_range (period + 1) stop) (rsi_step gains losses period)))"

definition calculate_rsi :: "real list \<Rightarrow> int \<Rightarrow> py_error + real option list" where
  "calculate_rsi closes period =
     (if int (length closes) < period + 1 then Inr (replicate (length closes) None)
      else ebind (rsi_run closes period (int (length closes)))
             (\<lambda>(avg_gain, avg_loss, rsi_values). Inr rsi_values))"

subsection \<open>Rolling windows\<close>

text \<open>
  The inner loop shared by the stochastic and the SMA stage:
  \<^verbatim>\<open>
  window = []
  for j in range(i - period + 1, i + 1):
      if values[j] is not None:
          window.append(values[j])
  \<close>
\<close>

definition collect_window :: "real option list \<Rightarrow> int \<Rightarrow> int \<Rightarrow> py_error + real list" where
  "collect_window values period i =
     for_loop (py_range (i - period + 1) (i + 1))
       (\<lambda>j window. ebind (py_get values j)
          (\<lambda>v. Inr (case v of None \<Rightarrow> window | Some x \<Rightarrow> window @ [x])))
       []"

subsection \<open>Stochastic transform stage (\<open>_calculate_stoch_k\<close>)\<close>

definition stoch_k_step :: "real option list \<Rightarrow> int \<Rightarrow> int \<Rightarrow> real option list \<Rightarrow> py_error + real option list" where
  "stoch_k_step rsi_values period i k_values =
     ebind (collect_window rsi_values period i) (\<lambda>window.
       if int (length window) < period then Inr k_values
       else
         ebind (py_min window) (\<lambda>min_rsi.
         ebind (py_max window) (\<lambda>max_rsi.
           if max_rsi = min_rsi then py_set k_values i (Some 50)
           else
             ebind (py_get rsi_values i) (\<lambda>r.
               case r of
                 None \<Rightarrow> Inl TypeError
               | Some x \<Rightarrow>
                   ebind (py_div (x - min_rsi) (max_rsi - min_rsi)) (\<lambda>q.
                   py_set k_values i (Some (q * 100)))))))"

definition calculate_stoch_k :: "real option list \<Rightarrow> int \<Rightarrow> py_error + real option list" where
  "calculate_stoch_k rsi_values period =
     for_loop (py_range (period - 1) (int (length rsi_values)))
       (stoch_k_step rsi_values period)
       (replicate (length rsi_values) None)"

subsection \<open>Smoothing stage (\<open>_calculate_sma\<close>)\<close>

definition sma_step :: "real option list \<Rightarrow> int \<Rightarrow> int \<Rightarrow> real option list \<Rightarrow> py_error + real option list" where
  "sma_step values period i sma_values =
     ebind (collect_window values period i) (\<lambda>window.
       if int (length window) = period
       then ebind (py_div (sum_list window) (real_of_int period)) (\<lambda>m.
            py_set sma_values i (Some m))
       else Inr sma_values)"

definition calculate_sma :: "real option list \<Rightarrow> int \<Rightarrow> py_error + real option list" where
  "calculate_sma values period =
     for_loop (py_range (period - 1) (int (length values)))
       (sma_step values period)
       (replicate (length values) None)"

subsection \<open>Pipeline driver (\<open>calculate\<close>)\<close>

definition null_value :: StochRSIValue where
  "null_value = \<lparr>val_k = None, val_d = None, val_rsi = None\<rparr>"

text \<open>
  The driver reaches its stages through \<open>self\<close>; \<open>calculate_with\<close> takes them as
  arguments, and \<open>calculate\<close> is the driver with the three stages of the class.
\<close>

definition calculate_with ::
  "(real list \<Rightarrow> int \<Rightarrow> py_error + real option list) \<Rightarrow>
   (real option list \<Rightarrow> int \<Rightarrow> py_error + real option list) \<Rightarrow>
   (real option list \<Rightarrow> int \<Rightarrow> py_error + real option list) \<Rightarrow>
   'a StochasticRSICalculator_scheme \<Rightarrow> real list \<Rightarrow> py_error + StochRSIValue list" where
  "calculate_with rsi_stage stoch_stage sma_stage self closes =
     (if int (length closes) < rsi_length self + stoch_length self + k_smooth self + d_smooth self - 2
      then Inr (replicate (length closes) null_value)
      else
        ebind (rsi_stage closes (rsi_length self)) (\<lambda>rsi_values.
        ebind (stoch_stage rsi_values (stoch_length self)) (\<lambda>k_values.
        ebind (sma_stage k_values (k_smooth self)) (\<lambda>k_smoothed.
        ebind (sma_stage k_smoothed (d_smooth self)) (\<lambda>d_values.
        for_loop (py_range 0 (int (length closes)))
          (\<lambda>i result.
             ebind (py_get k_smoothed i) (\<lambda>kv.
             ebind (py_get d_values i) (\<lambda>dv.
             ebind (py_get rsi_values i) (\<lambda>rv.
             Inr (result @ [\<lparr>val_k = kv, val_d = dv, val_rsi = rv\<rparr>])))))
          [])))))"

definition calculate :: "'a StochasticRSICalculator_scheme \<Rightarrow> real list \<Rightarrow> py_error + StochRSIValue list" where
  "calculate self closes = calculate_with calculate_rsi calculate_stoch_k calculate_sma self closes"

text \<open>The module's function \<open>calculate_stoch_rsi\<close>: a fresh calculator, then \<open>calculate\<close>.\<close>

definition calculate_stoch_rsi :: "real list \<Rightarrow> int \<Rightarrow> int \<Rightarrow> int \<Rightarrow> int \<Rightarrow> py_error + StochRSIValue list" where
  "calculate_stoch_rsi closes rl sl ks ds =
     calculate \<lparr>rsi_length = rl, stoch_length = sl, k_smooth = ks, d_smooth = ds\<rparr> closes"

subsection \<open>Closed forms used in the proofs\<close>

text \<open>The non-null entries of a list, in order: what the window loops collect.\<close>

fun somes :: "'a option list \<Rightarrow> 'a list" where
  "somes [] = []"
| "somes (None # xs) = somes xs"
| "somes (Some x # xs) = x # somes xs"

text \<open>The trailing window of \<open>period\<close> entries that ends at index \<open>i\<close>.\<close>

definition window_of :: "'a list \<Rightarrow> int \<Rightarrow> nat \<Rightarrow> 'a list" where
  "window_of xs period i = take (nat period) (drop (i + 1 - nat period) xs)"

text \<open>
  The smoothing rule in the spec's words: null when any entry of the window is null,
  the arithmetic mean of the window otherwise.
\<close>

definition sma_rule :: "real option list \<Rightarrow> int \<Rightarrow> nat \<Rightarrow> real option" where
  "sma_rule values period i =
     (let w = window_of values period i
      in if None \<in> set w then None
         else Some (sum_list (map the w) / real_of_int period))"

text \<open>
  The stochastic rule in the spec's words: null while the window holds a null; 50 on
  a flat window; the position of the last value between the window's minimum and
  maximum, in percent, otherwise.
\<close>

definition stoch_k_rule :: "real option list \<Rightarrow> int \<Rightarrow> nat \<Rightarrow> real option" where
  "stoch_k_rule rsi_values period i =
     (let w = window_of rsi_values period i
      in if None \<in> set w then None
         else let lo = Min (set (map the w)); hi = Max (set (map the w))
              in Some (if hi = lo then 50 else (the (rsi_values ! i) - lo) / (hi - lo) * 100))"

text \<open>The RSI formula with its zero-loss rule, as one expression.\<close>

definition rsi_formula :: "real \<Rightarrow> real \<Rightarrow> real" where
  "rsi_formula avg_gain avg_loss =
     (if avg_loss = 0 then (if avg_gain > 0 then 100 else 0)
      else 100 - 100 / (1 + avg_gain / avg_loss))"

text \<open>The deltas, gains and losses of a price list.\<close>

definition deltas_list :: "real list \<Rightarrow> real list" where
  "deltas_list closes = map (\<lambda>j. closes ! (j + 1) - closes ! j) [0..<length closes - 1]"

definition gains_list :: "real list \<Rightarrow> real list" where
  "gains_list closes = map (\<lambda>d. max d 0) (deltas_list closes)"

definition losses_list :: "real list \<Rightarrow> real list" where
  "losses_list closes = map (\<lambda>d. \<bar>min d 0\<bar>) (deltas_list closes)"

text \<open>
  The invariant of the RSI loop before the round for index \<open>i\<close>: the averages are
  not negative, the indices from \<open>period\<close> up to \<open>i - 1\<close> hold values between 0
  and 100, the others are null, and the last value written is the formula of the
  current averages.
\<close>

definition rsi_inv :: "int \<Rightarrow> nat \<Rightarrow> int \<Rightarrow> rsi_state \<Rightarrow> bool" where
  "rsi_inv period n i st =
     (case st of (avg_gain, avg_loss, rsi_values) \<Rightarrow>
        0 \<le> avg_gain \<and> 0 \<le> avg_loss \<and> length rsi_values = n \<and>
        (\<forall>j < n. if period \<le> int j \<and> int j < i
                  then \<exists>v. rsi_values ! j = Some v \<and> 0 \<le> v \<and> v \<le> 100
                  else rsi_values ! j = None) \<and>
        rsi_values ! nat (i - 1) = Some (rsi_formula avg_gain avg_loss))"

text \<open>A list whose entries are null exactly below index \<open>t\<close>.\<close>

definition valid_from :: "nat \<Rightarrow> 'a option list \<Rightarrow> bool" where
  "valid_from t xs = (\<forall>j < length xs. (xs ! j = None) = (j < t))"

text \<open>A list whose non-null entries all lie between 0 and 100.\<close>

definition in_percent :: "real option list \<Rightarrow> bool" where
  "in_percent xs = (\<forall>x \<in> set xs. case x of None \<Rightarrow> True | Some v \<Rightarrow> 0 \<le> v \<and> v \<le> 100)"

text \<open>The configurations the spec admits: four positive integers.\<close>

definition valid_config :: "'a StochasticRSICalculator_scheme \<Rightarrow> bool" where
  "valid_config self \<longleftrightarrow>
     0 < rsi_length self \<and> 0 < stoch_length self \<and> 0 < k_smooth self \<and> 0 < d_smooth self"

text \<open>The length below which the driver returns at once.\<close>

definition min_length :: "'a StochasticRSICalculator_scheme \<Rightarrow> int" where
  "min_length self = rsi_length self + stoch_length self + k_smooth self + d_smooth self - 2"

section \<open>The pipeline over doubles with their special values\<close>

































section \<open>Objects, the store and calls\<close>

text \<open>
  What a call of \<open>calculate\<close> can share with other calls and with its caller are
  objects: the calculator \<open>self\<close> with its four attributes, the list \<open>closes\<close>, and
  the list of \<open>StochRSIValue\<close> objects it returns. They live in a store, a map from
  addresses to objects, and a call takes the store and returns the new one. The lists
  that a call creates and drops (\<open>rsi_values\<close>, \<open>k_values\<close>, the windows) are bound
  to one local name each and only read elsewhere; they stay the values of the sections
  above.
\<close>

type_synonym addr = nat

datatype pyobj =
    Calculator StochasticRSICalculator
  | Prices "real list"
  | Reading StochRSIValue
  | Readings "addr list"

record store =
  heap :: "addr \<rightharpoonup> pyobj"
  next_addr :: addr

text \<open>A new object gets an address of its own.\<close>

definition alloc :: "pyobj \<Rightarrow> store \<Rightarrow> addr \<times> store" where
  "alloc obj st =
     (next_addr st, st\<lparr>heap := (heap st)(next_addr st \<mapsto> obj), next_addr := Suc (next_addr st)\<rparr>)"

text \<open>\<open>result.append(x)\<close> on the list object at \<open>r\<close>.\<close>

definition append_reading :: "addr \<Rightarrow> addr \<Rightarrow> store \<Rightarrow> store" where
  "append_reading r a st =
     (case heap st r of
        Some (Readings as) \<Rightarrow> st\<lparr>heap := (heap st)(r \<mapsto> Readings (as @ [a]))\<rparr>
      | _ \<Rightarrow> st)"

text \<open>
  The body of the driver's last loop: a new \<open>StochRSIValue\<close> object, appended to the
  result list.
\<close>

definition assemble_step ::
  "real option list \<Rightarrow> real option list \<Rightarrow> real option list \<Rightarrow> addr \<Rightarrow> int \<Rightarrow> store \<Rightarrow> py_error + store" where
  "assemble_step k_smoothed d_values rsi_values r i st =
     ebind (py_get k_smoothed i) (\<lambda>kv.
     ebind (py_get d_values i) (\<lambda>dv.
     ebind (py_get rsi_values i) (\<lambda>rv.
       let (a, st1) = alloc (Reading \<lparr>val_k = kv, val_d = dv, val_rsi = rv\<rparr>) st
       in Inr (append_reading r a st1))))"

text \<open>
  \<open>calculate\<close> as the method runs on objects. In the short branch
  \<open>[StochRSIValue(k=None, d=None, rsi=None)] * len(closes)\<close> makes one object, a list
  of it, and the list that repeats the reference. An exception leaves the store as it
  was before the loop.
\<close>

definition calculate_body :: "StochasticRSICalculator \<Rightarrow> real list \<Rightarrow> store \<Rightarrow> (py_error + addr) \<times> store" where
  "calculate_body self closes st =
     (if int (length closes) < rsi_length self + stoch_length self + k_smooth self + d_smooth self - 2
      then
        let (a, st1) = alloc (Reading \<lparr>val_k = None, val_d = None, val_rsi = None\<rparr>) st;
            (t, st2) = alloc (Readings [a]) st1;
            (r, st3) = alloc (Readings (replicate (length closes) a)) st2
        in (Inr r, st3)
      else
        case ebind (calculate_rsi closes (rsi_length self)) (\<lambda>rsi_values.
             ebind (calculate_stoch_k rsi_values (stoch_length self)) (\<lambda>k_values.
             ebind (calculate_sma k_values (k_smooth self)) (\<lambda>k_smoothed.
             ebind (calculate_sma k_smoothed (d_smooth self)) (\<lambda>d_values.
             Inr (rsi_values, k_smoothed, d_values))))) of
          Inl e \<Rightarrow> (Inl e, st)
        | Inr (rsi_values, k_smoothed, d_values) \<Rightarrow>
            let (r, st1) = alloc (Readings []) st
            in case for_loop (py_range 0 (int (length closes)))
                      (assemble_step k_smoothed d_values rsi_values r) st1 of
                 Inl e \<Rightarrow> (Inl e, st1)
               | Inr st2 \<Rightarrow> (Inr r, st2))"

text \<open>
  The call \<open>self.calculate(closes)\<close> on two references; \<open>None\<close> when a reference
  does not point to an object of its class, which no caller of the module does.
\<close>

definition calculate_call :: "addr \<Rightarrow> addr \<Rightarrow> store \<Rightarrow> ((py_error + addr) \<times> store) option" where
  "calculate_call self_ref closes_ref st =
     (case heap st self_ref of
        Some (Calculator self) \<Rightarrow>
          (case heap st closes_ref of
             Some (Prices closes) \<Rightarrow> Some (calculate_body self closes st)
           | _ \<Rightarrow> None)
      | _ \<Rightarrow> None)"

text \<open>\<open>StochasticRSICalculator(rl, sl, ks, ds)\<close>: a new object; \<open>__init__\<close> sets its attributes.\<close>

definition new_calculator :: "int \<Rightarrow> int \<Rightarrow> int \<Rightarrow> int \<Rightarrow> store \<Rightarrow> addr \<times> store" where
  "new_calculator rl sl ks ds st =
     alloc (Calculator \<lparr>rsi_length = rl, stoch_length = sl, k_smooth = ks, d_smooth = ds\<rparr>) st"

text \<open>The module's function on objects: a new calculator, then its \<open>calculate\<close>.\<close>

definition calculate_stoch_rsi_call ::
  "addr \<Rightarrow> int \<Rightarrow> int \<Rightarrow> int \<Rightarrow> int \<Rightarrow> store \<Rightarrow> ((py_error + addr) \<times> store) option" where
  "calculate_stoch_rsi_call closes_ref rl sl ks ds st =
     (let (c, st1) = new_calculator rl sl ks ds st in calculate_call c closes_ref st1)"

text \<open>A history of calls into the module, run from left to right; results are dropped.\<close>

datatype call =
    New int int int int
  | Calculate addr addr
  | CalculateStochRsi addr int int int int

definition run_call :: "call \<Rightarrow> store \<Rightarrow> store" where
  "run_call c st =
     (case c of
        New rl sl ks ds \<Rightarrow> snd (new_calculator rl sl ks ds st)
      | Calculate self_ref closes_ref \<Rightarrow>
          (case calculate_call self_ref closes_ref st of Some (res, st') \<Rightarrow> st' | None \<Rightarrow> st)
      | CalculateStochRsi closes_ref rl sl ks ds \<Rightarrow>
          (case calculate_stoch_rsi_call closes_ref rl sl ks ds st of Some (res, st') \<Rightarrow> st' | None \<Rightarrow> st))"

fun run_calls :: "call list \<Rightarrow> store \<Rightarrow> store" where
  "run_calls [] st = st"
| "run_calls (c # cs) st = run_calls cs (run_call c st)"

text \<open>
  What the caller sees of a call: the exception, or the fields of the readings in the
  returned list, read through the references.
\<close>

definition reading_at :: "store \<Rightarrow> addr \<Rightarrow> StochRSIValue option" where
  "reading_at st a = (case heap st a of Some (Reading v) \<Rightarrow> Some v | _ \<Rightarrow> None)"

definition readings_at :: "store \<Rightarrow> addr \<Rightarrow> StochRSIValue list option" where
  "readings_at st r =
     (case heap st r of
        Some (Readings as) \<Rightarrow>
          if list_all (\<lambda>a. reading_at st a \<noteq> None) as
          then Some (map (\<lambda>a. the (reading_at st a)) as) else None
      | _ \<Rightarrow> None)"

definition outcome :: "((py_error + addr) \<times> store) option \<Rightarrow> (py_error + StochRSIValue list) option" where
  "outcome res =
     (case res of
        None \<Rightarrow> None
      | Some (Inl e, st) \<Rightarrow> Some (Inl e)
      | Some (Inr r, st) \<Rightarrow> map_option Inr (readings_at st r))"

text \<open>A store whose objects all lie below the next address to hand out.\<close>

definition wf_store :: "store \<Rightarrow> bool" where
  "wf_store st = (\<forall>a. heap st a \<noteq> None \<longrightarrow> a < next_addr st)"

text \<open>The reading the driver's last loop builds at index \<open>i\<close>.\<close>

definition reading_of ::
  "real option list \<Rightarrow> real option list \<Rightarrow> real option list \<Rightarrow> int \<Rightarrow> py_error + StochRSIValue" where
  "reading_of k_smoothed d_values rsi_values i =
     ebind (py_get k_smoothed i) (\<lambda>kv.
     ebind (py_get d_values i) (\<lambda>dv.
     ebind (py_get rsi_values i) (\<lambda>rv.
     Inr \<lparr>val_k = kv, val_d = dv, val_rsi = rv\<rparr>)))"

section \<open>Proofs\<close>

subsection \<open>The error monad and loops\<close>

lemma ebind_Inr [simp]: "ebind (Inr x) f = f x"
  by (simp add: ebind_def)

lemma ebind_Inl [simp]: "ebind (Inl e) f = Inl e"
  by (simp add: ebind_def)

lemma ebind_eq_Inr: "ebind m f = Inr y \<longleftrightarrow> (\<exists>x. m = Inr x \<and> f x = Inr y)"
  by (cases m) simp_all

lemma for_loop_append:
  "for_loop (xs @ ys) body s = ebind (for_loop xs body s) (for_loop ys body)"
proof (induction xs arbitrary: s)
  case Nil
  show ?case by simp
next
  case (Cons x xs)
  show ?case
  proof (cases "body x s")
    case (Inl e)
    then show ?thesis by simp
  next
    case (Inr s')
    then show ?thesis by (simp add: Cons.IH)
  qed
qed

lemma for_loop_single [simp]: "for_loop [i] body s = body i s"
  by (cases "body i s") simp_all

lemma py_range_empty [simp]: "b \<le> a \<Longrightarrow> py_range a b = []"
  by (simp add: py_range_def)

lemma py_range_snoc: "a \<le> b \<Longrightarrow> py_range a (b + 1) = py_range a b @ [b]"
proof -
  assume "a \<le> b"
  then have "nat (b + 1 - a) = Suc (nat (b - a))" by simp
  then show ?thesis using \<open>a \<le> b\<close> by (simp add: py_range_def)
qed

lemma py_range_split:
  assumes "a \<le> m" "m \<le> b"
  shows "py_range a b = py_range a m @ py_range m b"
proof (rule nth_equalityI)
  show "length (py_range a b) = length (py_range a m @ py_range m b)"
    using assms by (simp add: py_range_def)
next
  fix i assume "i < length (py_range a b)"
  then have i: "i < nat (b - a)" by (simp add: py_range_def)
  show "py_range a b ! i = (py_range a m @ py_range m b) ! i"
  proof (cases "i < nat (m - a)")
    case True
    then show ?thesis using i by (simp add: py_range_def nth_append)
  next
    case False
    then have "i - nat (m - a) < nat (b - m)" using i assms by linarith
    then show ?thesis using i False assms by (simp add: py_range_def nth_append)
  qed
qed

lemma set_py_range [simp]: "set (py_range a b) = {a..<b}"
proof (rule set_eqI)
  fix i
  show "i \<in> set (py_range a b) \<longleftrightarrow> i \<in> {a..<b}"
  proof
    assume "i \<in> set (py_range a b)"
    then show "i \<in> {a..<b}" by (auto simp: py_range_def)
  next
    assume h: "i \<in> {a..<b}"
    then have "nat (i - a) \<in> set [0..<nat (b - a)]" by simp
    then have "a + int (nat (i - a)) \<in> set (py_range a b)"
      unfolding py_range_def set_map by (rule imageI)
    then show "i \<in> set (py_range a b)" using h by simp
  qed
qed

lemma length_py_range [simp]: "length (py_range a b) = nat (b - a)"
  by (simp add: py_range_def)

text \<open>The loop rule: an invariant indexed by the next index to run.\<close>

lemma for_loop_range_rule:
  assumes init: "P a s0"
    and step: "\<And>i s. a \<le> i \<Longrightarrow> i < b \<Longrightarrow> P i s \<Longrightarrow> \<exists>s'. body i s = Inr s' \<and> P (i + 1) s'"
  shows "\<exists>s'. for_loop (py_range a b) body s0 = Inr s' \<and> P (max a b) s'"
proof -
  have "a \<le> c \<Longrightarrow> c \<le> b \<Longrightarrow> \<exists>s'. for_loop (py_range a c) body s0 = Inr s' \<and> P c s'" for c
  proof (induction "nat (c - a)" arbitrary: c)
    case 0
    then have "c = a" by simp
    then show ?case using init by simp
  next
    case (Suc n)
    then have c: "a \<le> c - 1" "c - 1 \<le> b" "n = nat (c - 1 - a)" "c - 1 < b" by simp_all
    from Suc.hyps(1)[OF c(3) c(1) c(2)]
    obtain s1 where s1: "for_loop (py_range a (c - 1)) body s0 = Inr s1" "P (c - 1) s1" by blast
    from step[OF c(1) c(4) s1(2)]
    obtain s2 where s2: "body (c - 1) s1 = Inr s2" "P c s2" by auto
    have "py_range a c = py_range a (c - 1) @ [c - 1]"
      using py_range_snoc[OF c(1)] by simp
    then show ?case using s1 s2 by (simp add: for_loop_append)
  qed
  from this[of "max a b"] show ?thesis
  proof (cases "a \<le> b")
    case True
    then show ?thesis using \<open>a \<le> max a b \<Longrightarrow> max a b \<le> b \<Longrightarrow> _\<close> by (simp add: max_def)
  next
    case False
    then show ?thesis using init by (simp add: max_def)
  qed
qed

lemma py_index_ok: "0 \<le> i \<Longrightarrow> i < int n \<Longrightarrow> py_index n i = Inr (nat i)"
  by (simp add: py_index_def)

lemma py_get_ok: "0 \<le> i \<Longrightarrow> i < int (length xs) \<Longrightarrow> py_get xs i = Inr (xs ! nat i)"
  by (simp add: py_get_def py_index_ok)

lemma py_set_ok: "0 \<le> i \<Longrightarrow> i < int (length xs) \<Longrightarrow> py_set xs i v = Inr (xs[nat i := v])"
  by (simp add: py_set_def py_index_ok)

lemma somes_append [simp]: "somes (xs @ ys) = somes xs @ somes ys"
  by (induction xs rule: somes.induct) simp_all

lemma length_somes_le: "length (somes xs) \<le> length xs"
  by (induction xs rule: somes.induct) simp_all

lemma somes_full: "length (somes xs) = length xs \<longleftrightarrow> None \<notin> set xs"
proof (induction xs rule: somes.induct)
  case 1
  show ?case by simp
next
  case (2 xs)
  have "length (somes xs) \<le> length xs" by (rule length_somes_le)
  then show ?case by simp
next
  case (3 x xs)
  then show ?case by simp
qed

lemma somes_map_the: "None \<notin> set xs \<Longrightarrow> somes xs = map the xs"
  by (induction xs rule: somes.induct) simp_all

subsection \<open>Windows\<close>

lemma window_of_length:
  "0 < period \<Longrightarrow> period - 1 \<le> int i \<Longrightarrow> i < length xs \<Longrightarrow> length (window_of xs period i) = nat period"
  by (simp add: window_of_def)

lemma window_of_nth:
  "0 < period \<Longrightarrow> period - 1 \<le> int i \<Longrightarrow> i < length xs \<Longrightarrow> j < nat period \<Longrightarrow>
   window_of xs period i ! j = xs ! (i + 1 - nat period + j)"
  by (simp add: window_of_def)

lemma window_of_set:
  assumes "0 < period" "period - 1 \<le> int i" "i < length xs"
  shows "set (window_of xs period i) = {xs ! j | j. i + 1 - nat period \<le> j \<and> j \<le> i}"
proof -
  have len: "length (window_of xs period i) = nat period"
    using assms by (rule window_of_length)
  have p: "nat period \<le> i + 1" using assms by linarith
  show ?thesis
  proof (rule set_eqI, rule iffI)
    fix x assume "x \<in> set (window_of xs period i)"
    then obtain j where j: "j < nat period" "x = window_of xs period i ! j"
      using len by (metis in_set_conv_nth)
    then have "x = xs ! (i + 1 - nat period + j)"
      using assms by (simp add: window_of_nth)
    moreover have "i + 1 - nat period \<le> i + 1 - nat period + j" "i + 1 - nat period + j \<le> i"
      using j(1) p by linarith+
    ultimately show "x \<in> {xs ! j | j. i + 1 - nat period \<le> j \<and> j \<le> i}" by blast
  next
    fix x assume "x \<in> {xs ! j | j. i + 1 - nat period \<le> j \<and> j \<le> i}"
    then obtain j where j: "x = xs ! j" "i + 1 - nat period \<le> j" "j \<le> i" by blast
    define m where "m = j - (i + 1 - nat period)"
    have m: "m < nat period" "j = i + 1 - nat period + m"
      using j p by (simp_all add: m_def)
    then have "window_of xs period i ! m = x"
      using assms j(1) by (simp add: window_of_nth)
    then show "x \<in> set (window_of xs period i)"
      using m(1) len by (metis nth_mem)
  qed
qed

lemma collect_window_eq:
  assumes "0 < period" "period - 1 \<le> i" "i < int (length values)"
  shows "collect_window values period i = Inr (somes (window_of values period (nat i)))"
proof -
  define a where "a = i - period + 1"
  define P where "P j acc \<longleftrightarrow> acc = somes (take (nat (j - a)) (drop (nat a) values))" for j acc
  define body where "body = (\<lambda>j window. ebind (py_get values j)
          (\<lambda>v. Inr (case v of None \<Rightarrow> window | Some x \<Rightarrow> window @ [x])))"
  have a0: "0 \<le> a" "a \<le> i + 1" using assms by (simp_all add: a_def)
  have "\<exists>s'. for_loop (py_range a (i + 1)) body [] = Inr s' \<and> P (max a (i + 1)) s'"
  proof (rule for_loop_range_rule)
    show "P a []" by (simp add: P_def)
  next
    fix j acc assume j: "a \<le> j" "j < i + 1" and inv: "P j acc"
    have jr: "0 \<le> j" "j < int (length values)" using j a0 assms by simp_all
    have k: "nat (j - a) < length (drop (nat a) values)" using j jr a0 by simp
    have "nat (j + 1 - a) = Suc (nat (j - a))" using j by simp
    then have "take (nat (j + 1 - a)) (drop (nat a) values)
        = take (nat (j - a)) (drop (nat a) values) @ [drop (nat a) values ! nat (j - a)]"
      using take_Suc_conv_app_nth[OF k] by simp
    moreover have "drop (nat a) values ! nat (j - a) = values ! nat j"
      using j jr a0 by (simp add: nat_diff_distrib)
    ultimately have "somes (take (nat (j + 1 - a)) (drop (nat a) values))
        = acc @ somes [values ! nat j]"
      using inv by (simp add: P_def)
    then have "P (j + 1) (case values ! nat j of None \<Rightarrow> acc | Some x \<Rightarrow> acc @ [x])"
      by (cases "values ! nat j") (simp_all add: P_def)
    then show "\<exists>s'. body j acc = Inr s' \<and> P (j + 1) s'"
      by (simp add: body_def py_get_ok[OF jr])
  qed
  then obtain w where w: "for_loop (py_range a (i + 1)) body [] = Inr w" "P (i + 1) w"
    using a0 by (auto simp: max_def)
  have "nat (i + 1 - a) = nat period" by (simp add: a_def)
  moreover have "nat a = nat i + 1 - nat period" using assms by (simp add: a_def)
  ultimately have "w = somes (window_of values period (nat i))"
    using w(2) by (simp add: P_def window_of_def)
  then show ?thesis using w(1) by (simp add: collect_window_def body_def a_def)
qed

subsection \<open>The smoothing and the stochastic stage\<close>

lemma fill_loop:
  assumes step: "\<And>i ys. a \<le> i \<Longrightarrow> i < int n \<Longrightarrow> length ys = n \<Longrightarrow> ys ! nat i = None \<Longrightarrow>
      body i ys = Inr (ys[nat i := f (nat i)])"
    and a: "0 \<le> a"
  shows "for_loop (py_range a (int n)) body (replicate n None)
    = Inr (map (\<lambda>j. if a \<le> int j then f j else None) [0..<n])"
proof -
  define P where "P i ys \<longleftrightarrow> ys = map (\<lambda>j. if a \<le> int j \<and> int j < i then f j else None) [0..<n]"
    for i ys
  have "\<exists>s'. for_loop (py_range a (int n)) body (replicate n None) = Inr s' \<and> P (max a (int n)) s'"
  proof (rule for_loop_range_rule)
    show "P a (replicate n None)"
      unfolding P_def by (rule nth_equalityI) auto
  next
    fix i ys assume i: "a \<le> i" "i < int n" and inv: "P i ys"
    have len: "length ys = n" using inv by (simp add: P_def)
    have ni: "nat i < n" using i a by simp
    have none: "ys ! nat i = None" using inv ni by (simp add: P_def)
    have "ys[nat i := f (nat i)] = map (\<lambda>j. if a \<le> int j \<and> int j < i + 1 then f j else None) [0..<n]"
    proof (rule nth_equalityI)
      show "length (ys[nat i := f (nat i)]) = length (map (\<lambda>j. if a \<le> int j \<and> int j < i + 1 then f j else None) [0..<n])"
        using len by simp
    next
      fix j assume "j < length (ys[nat i := f (nat i)])"
      then have j: "j < n" using len by simp
      show "ys[nat i := f (nat i)] ! j = map (\<lambda>j. if a \<le> int j \<and> int j < i + 1 then f j else None) [0..<n] ! j"
      proof (cases "j = nat i")
        case True
        then show ?thesis using j len i a by simp
      next
        case False
        then have "ys[nat i := f (nat i)] ! j = ys ! j" by simp
        also have "\<dots> = (if a \<le> int j \<and> int j < i then f j else None)"
          using inv j by (simp add: P_def)
        also have "\<dots> = (if a \<le> int j \<and> int j < i + 1 then f j else None)"
          using False i a by auto
        finally show ?thesis using j by simp
      qed
    qed
    then have "P (i + 1) (ys[nat i := f (nat i)])" by (simp add: P_def)
    then show "\<exists>s'. body i ys = Inr s' \<and> P (i + 1) s'"
      using step[OF i len none] by simp
  qed
  then obtain s' where s': "for_loop (py_range a (int n)) body (replicate n None) = Inr s'"
    "P (max a (int n)) s'" by blast
  have "s' = map (\<lambda>j. if a \<le> int j then f j else None) [0..<n]"
  proof (cases "a \<le> int n")
    case True
    then show ?thesis using s'(2) by (simp add: P_def max_def)
  next
    case False
    then show ?thesis using s'(2) by (simp add: P_def max_def)
  qed
  then show ?thesis using s'(1) by simp
qed

lemma py_min_eq: "xs \<noteq> [] \<Longrightarrow> py_min xs = Inr (Min (set xs))"
proof (cases xs)
  case Nil
  assume "xs \<noteq> []"
  with Nil show ?thesis by simp
next
  case (Cons y ys)
  then show ?thesis unfolding py_min_def using Min.set_eq_fold[of y ys] by simp
qed

lemma py_max_eq: "xs \<noteq> [] \<Longrightarrow> py_max xs = Inr (Max (set xs))"
proof (cases xs)
  case Nil
  assume "xs \<noteq> []"
  with Nil show ?thesis by simp
next
  case (Cons y ys)
  then show ?thesis unfolding py_max_def using Max.set_eq_fold[of y ys] by simp
qed

lemma window_somes_complete:
  assumes "0 < period" "period - 1 \<le> int i" "i < length xs"
  shows "int (length (somes (window_of xs period i))) = period \<longleftrightarrow> None \<notin> set (window_of xs period i)"
    and "int (length (somes (window_of xs period i))) < period \<longleftrightarrow> None \<in> set (window_of xs period i)"
proof -
  have len: "length (window_of xs period i) = nat period"
    using assms by (rule window_of_length)
  have le: "length (somes (window_of xs period i)) \<le> nat period"
    using length_somes_le[of "window_of xs period i"] len by simp
  have full: "length (somes (window_of xs period i)) = nat period \<longleftrightarrow> None \<notin> set (window_of xs period i)"
    using somes_full[of "window_of xs period i"] len by simp
  have "int (length (somes (window_of xs period i))) = period
      \<longleftrightarrow> length (somes (window_of xs period i)) = nat period"
    using assms(1) by linarith
  then show "int (length (somes (window_of xs period i))) = period \<longleftrightarrow> None \<notin> set (window_of xs period i)"
    using full by simp
  have "int (length (somes (window_of xs period i))) < period
      \<longleftrightarrow> length (somes (window_of xs period i)) \<noteq> nat period"
    using assms(1) le by linarith
  then show "int (length (somes (window_of xs period i))) < period \<longleftrightarrow> None \<in> set (window_of xs period i)"
    using full by simp
qed

lemma sma_step_eq:
  assumes "0 < period" "period - 1 \<le> i" "i < int (length values)"
    and "length ys = length values" "ys ! nat i = None"
  shows "sma_step values period i ys = Inr (ys[nat i := sma_rule values period (nat i)])"
proof -
  let ?w = "window_of values period (nat i)"
  have i: "0 \<le> i" "period - 1 \<le> int (nat i)" "nat i < length values" using assms by simp_all
  have cw: "collect_window values period i = Inr (somes ?w)"
    using assms by (simp add: collect_window_eq)
  have complete: "int (length (somes ?w)) = period \<longleftrightarrow> None \<notin> set ?w"
    using window_somes_complete(1)[OF assms(1) i(2) i(3)] .
  have iy: "i < int (length ys)" using assms by simp
  have same: "ys[nat i := None] = ys" using assms(5) iy i(1) by (simp add: list_update_same_conv)
  show ?thesis
  proof (cases "None \<in> set ?w")
    case True
    then show ?thesis
      using cw complete same by (simp add: sma_step_def sma_rule_def)
  next
    case False
    then have "somes ?w = map the ?w" by (rule somes_map_the)
    then show ?thesis
      using cw complete False assms(1) py_set_ok[OF i(1) iy]
      by (simp add: sma_step_def sma_rule_def py_div_def)
  qed
qed

lemma calculate_sma_eq:
  assumes "0 < period"
  shows "calculate_sma values period
    = Inr (map (\<lambda>j. if period - 1 \<le> int j then sma_rule values period j else None) [0..<length values])"
  unfolding calculate_sma_def
proof (rule fill_loop)
  show "0 \<le> period - 1" using assms by simp
next
  fix i and ys :: "real option list"
  assume "period - 1 \<le> i" "i < int (length values)" "length ys = length values" "ys ! nat i = None"
  then show "sma_step values period i ys = Inr (ys[nat i := sma_rule values period (nat i)])"
    using assms by (simp add: sma_step_eq)
qed

lemma window_of_last:
  assumes "0 < period" "period - 1 \<le> int i" "i < length xs"
  shows "xs ! i \<in> set (window_of xs period i)"
  using window_of_set[OF assms] assms by auto

lemma stoch_k_step_eq:
  assumes "0 < period" "period - 1 \<le> i" "i < int (length rsi_values)"
    and "length ys = length rsi_values" "ys ! nat i = None"
  shows "stoch_k_step rsi_values period i ys = Inr (ys[nat i := stoch_k_rule rsi_values period (nat i)])"
proof -
  let ?w = "window_of rsi_values period (nat i)"
  have i: "0 \<le> i" "period - 1 \<le> int (nat i)" "nat i < length rsi_values" using assms by simp_all
  have cw: "collect_window rsi_values period i = Inr (somes ?w)"
    using assms by (simp add: collect_window_eq)
  have short: "int (length (somes ?w)) < period \<longleftrightarrow> None \<in> set ?w"
    using window_somes_complete(2)[OF assms(1) i(2) i(3)] .
  have iy: "i < int (length ys)" using assms by simp
  have same: "ys[nat i := None] = ys" using assms(5) iy i(1) by (simp add: list_update_same_conv)
  show ?thesis
  proof (cases "None \<in> set ?w")
    case True
    then show ?thesis
      using cw short same by (simp add: stoch_k_step_def stoch_k_rule_def)
  next
    case False
    then have sw: "somes ?w = map the ?w" by (rule somes_map_the)
    have "length ?w = nat period" using assms(1) i(2) i(3) by (rule window_of_length)
    then have ne: "map the ?w \<noteq> []" using assms(1) by auto
    have "rsi_values ! nat i \<in> set ?w" using assms(1) i(2) i(3) by (rule window_of_last)
    then have "rsi_values ! nat i \<noteq> None" using False by metis
    then obtain x where x: "rsi_values ! nat i = Some x" by blast
    have get: "py_get rsi_values i = Inr (Some x)"
      using py_get_ok[OF i(1) assms(3)] x by simp
    show ?thesis
      using cw short False sw py_min_eq[OF ne] py_max_eq[OF ne] get x py_set_ok[OF i(1) iy]
      by (simp add: stoch_k_step_def stoch_k_rule_def py_div_def Let_def)
  qed
qed

lemma calculate_stoch_k_eq:
  assumes "0 < period"
  shows "calculate_stoch_k rsi_values period
    = Inr (map (\<lambda>j. if period - 1 \<le> int j then stoch_k_rule rsi_values period j else None)
        [0..<length rsi_values])"
  unfolding calculate_stoch_k_def
proof (rule fill_loop)
  show "0 \<le> period - 1" using assms by simp
next
  fix i and ys :: "real option list"
  assume "period - 1 \<le> i" "i < int (length rsi_values)" "length ys = length rsi_values" "ys ! nat i = None"
  then show "stoch_k_step rsi_values period i ys = Inr (ys[nat i := stoch_k_rule rsi_values period (nat i)])"
    using assms by (simp add: stoch_k_step_eq)
qed

subsection \<open>The RSI stage\<close>

lemma deltas_of_eq: "deltas_of closes = Inr (deltas_list closes)"
proof -
  define n where "n = length closes"
  define f where "f = (\<lambda>j. closes ! (j + 1) - closes ! j)"
  define P where "P i acc \<longleftrightarrow> acc = map f [0..<nat (i - 1)]" for i acc
  define body where "body = (\<lambda>i acc. ebind (py_get closes i) (\<lambda>a.
                 ebind (py_get closes (i - 1)) (\<lambda>b. Inr (acc @ [a - b]))))"
  have "\<exists>s'. for_loop (py_range 1 (int n)) body [] = Inr s' \<and> P (max 1 (int n)) s'"
  proof (rule for_loop_range_rule)
    show "P 1 []" by (simp add: P_def)
  next
    fix i acc assume i: "1 \<le> i" "i < int n" and inv: "P i acc"
    have g1: "py_get closes i = Inr (closes ! nat i)"
      using i by (simp add: py_get_ok n_def)
    have g2: "py_get closes (i - 1) = Inr (closes ! nat (i - 1))"
      using i by (simp add: py_get_ok n_def)
    have s: "nat i = Suc (nat (i - 1))" using i by simp
    have "[0..<nat i] = [0..<nat (i - 1)] @ [nat (i - 1)]" by (subst s) simp
    moreover have "f (nat (i - 1)) = closes ! nat i - closes ! nat (i - 1)"
      using s by (simp add: f_def)
    ultimately have "P (i + 1) (acc @ [closes ! nat i - closes ! nat (i - 1)])"
      using inv by (simp add: P_def)
    then show "\<exists>s'. body i acc = Inr s' \<and> P (i + 1) s'"
      by (simp add: body_def g1 g2)
  qed
  then obtain ds where ds: "for_loop (py_range 1 (int n)) body [] = Inr ds" "P (max 1 (int n)) ds"
    by blast
  have "nat (max 1 (int n) - 1) = n - 1"
  proof (cases "1 \<le> int n")
    case True
    then have "max 1 (int n) = int n" by simp
    then show ?thesis by (simp add: nat_diff_distrib)
  next
    case False
    then have "n = 0" by simp
    then show ?thesis by simp
  qed
  then have "ds = deltas_list closes" using ds(2) by (simp add: P_def deltas_list_def f_def n_def)
  then show ?thesis using ds(1) by (simp add: deltas_of_def body_def n_def)
qed

lemma length_gains_list [simp]: "length (gains_list closes) = length closes - 1"
  by (simp add: gains_list_def deltas_list_def)

lemma length_losses_list [simp]: "length (losses_list closes) = length closes - 1"
  by (simp add: losses_list_def deltas_list_def)

lemma gains_list_nonneg: "x \<in> set (gains_list closes) \<Longrightarrow> 0 \<le> x"
  by (auto simp: gains_list_def)

lemma losses_list_nonneg: "x \<in> set (losses_list closes) \<Longrightarrow> 0 \<le> x"
  by (auto simp: losses_list_def)

lemma rsi_run_unfold:
  "rsi_run closes period stop =
     ebind (rsi_seed (gains_list closes) (losses_list closes) period (length closes))
       (for_loop (py_range (period + 1) stop) (rsi_step (gains_list closes) (losses_list closes) period))"
  by (simp add: rsi_run_def deltas_of_eq gains_list_def losses_list_def Let_def)

lemma rsi_value_eq:
  assumes "0 \<le> g" "0 \<le> l"
  shows "rsi_value g l = Inr (rsi_formula g l)"
proof (cases "l = 0")
  case True
  then show ?thesis by (simp add: rsi_value_def rsi_formula_def)
next
  case False
  then have "0 \<le> g / l" using assms by simp
  then have "1 + g / l \<noteq> 0" by linarith
  then show ?thesis using False by (simp add: rsi_value_def rsi_formula_def py_div_def)
qed

lemma rsi_formula_bounds:
  assumes "0 \<le> g" "0 \<le> l"
  shows "0 \<le> rsi_formula g l" "rsi_formula g l \<le> 100"
proof -
  have "0 \<le> rsi_formula g l \<and> rsi_formula g l \<le> 100"
  proof (cases "l = 0")
    case True
    then show ?thesis by (simp add: rsi_formula_def)
  next
    case False
    then have "0 \<le> g / l" using assms by simp
    then have one: "1 \<le> 1 + g / l" by linarith
    then have "100 / (1 + g / l) \<le> 100" by (simp add: divide_le_eq)
    moreover have "0 \<le> 100 / (1 + g / l)" using one by simp
    ultimately show ?thesis using False by (simp add: rsi_formula_def)
  qed
  then show "0 \<le> rsi_formula g l" "rsi_formula g l \<le> 100" by simp_all
qed

lemma sum_list_nonneg_real: "(\<And>x. x \<in> set xs \<Longrightarrow> (0::real) \<le> x) \<Longrightarrow> 0 \<le> sum_list xs"
  by (induction xs) simp_all

lemma rsi_seed_inv:
  assumes p: "0 < period" and n: "period + 1 \<le> int n"
    and g: "\<And>x. x \<in> set gains \<Longrightarrow> 0 \<le> x" and l: "\<And>x. x \<in> set losses \<Longrightarrow> 0 \<le> x"
  shows "\<exists>st. rsi_seed gains losses period n = Inr st \<and> rsi_inv period n (period + 1) st"
proof -
  define ag where "ag = sum_list (py_prefix gains period) / real_of_int period"
  define al where "al = sum_list (py_prefix losses period) / real_of_int period"
  have "0 \<le> sum_list (py_prefix gains period)"
    using p g by (intro sum_list_nonneg_real) (auto simp: py_prefix_def dest: in_set_takeD)
  then have ag: "0 \<le> ag" using p by (simp add: ag_def)
  have "0 \<le> sum_list (py_prefix losses period)"
    using p l by (intro sum_list_nonneg_real) (auto simp: py_prefix_def dest: in_set_takeD)
  then have al: "0 \<le> al" using p by (simp add: al_def)
  have set: "py_set (replicate n None) period (Some (rsi_formula ag al))
      = Inr ((replicate n None)[nat period := Some (rsi_formula ag al)])"
    using p n by (simp add: py_set_ok)
  have seed: "rsi_seed gains losses period n
      = Inr (ag, al, (replicate n None)[nat period := Some (rsi_formula ag al)])"
    using p set rsi_value_eq[OF ag al] by (simp add: rsi_seed_def py_div_def ag_def al_def)
  have pn: "nat period < n" using p n by simp
  have "rsi_inv period n (period + 1) (ag, al, (replicate n None)[nat period := Some (rsi_formula ag al)])"
    unfolding rsi_inv_def prod.case
  proof (intro conjI allI impI)
    fix j assume j: "j < n"
    show "if period \<le> int j \<and> int j < period + 1
      then \<exists>v. (replicate n None)[nat period := Some (rsi_formula ag al)] ! j = Some v \<and> 0 \<le> v \<and> v \<le> 100
      else (replicate n None)[nat period := Some (rsi_formula ag al)] ! j = None"
    proof (cases "j = nat period")
      case True
      then show ?thesis using p pn rsi_formula_bounds[OF ag al] by simp
    next
      case False
      then have "\<not> (period \<le> int j \<and> int j < period + 1)" by linarith
      then show ?thesis using False j by simp
    qed
  qed (use ag al pn in simp_all)
  then show ?thesis using seed by simp
qed

lemma rsi_step_inv:
  assumes p: "0 < period" and i: "period + 1 \<le> i" "i < int n"
    and lg: "length gains = n - 1" and ll: "length losses = n - 1"
    and g: "\<And>x. x \<in> set gains \<Longrightarrow> 0 \<le> x" and l: "\<And>x. x \<in> set losses \<Longrightarrow> 0 \<le> x"
    and inv: "rsi_inv period n i (ag, al, vals)"
  shows "\<exists>ag' al' v. rsi_step gains losses period i (ag, al, vals) = Inr (ag', al', vals[nat i := Some v])
      \<and> rsi_inv period n (i + 1) (ag', al', vals[nat i := Some v])"
proof -
  have i1: "0 \<le> i - 1" "i - 1 < int (length gains)" "i - 1 < int (length losses)"
    using p i lg ll by simp_all
  define ag' where "ag' = (ag * real_of_int (period - 1) + gains ! nat (i - 1)) / real_of_int period"
  define al' where "al' = (al * real_of_int (period - 1) + losses ! nat (i - 1)) / real_of_int period"
  have old: "0 \<le> ag" "0 \<le> al" "length vals = n"
    and pat: "\<And>j. j < n \<Longrightarrow> if period \<le> int j \<and> int j < i
                  then \<exists>v. vals ! j = Some v \<and> 0 \<le> v \<and> v \<le> 100
                  else vals ! j = None"
    using inv by (simp_all add: rsi_inv_def)
  have "0 \<le> gains ! nat (i - 1)" using g i1 by simp
  then have "0 \<le> ag * real_of_int (period - 1) + gains ! nat (i - 1)" using old(1) p by simp
  then have ag: "0 \<le> ag'" using p by (simp add: ag'_def)
  have "0 \<le> losses ! nat (i - 1)" using l i1 by simp
  then have "0 \<le> al * real_of_int (period - 1) + losses ! nat (i - 1)" using old(2) p by simp
  then have al: "0 \<le> al'" using p by (simp add: al'_def)
  have iv: "0 \<le> i" "i < int (length vals)" using p i old(3) by simp_all
  have step: "rsi_step gains losses period i (ag, al, vals)
      = Inr (ag', al', vals[nat i := Some (rsi_formula ag' al')])"
    using p py_get_ok[OF i1(1) i1(2)] py_get_ok[OF i1(1) i1(3)] rsi_value_eq[OF ag al] py_set_ok[OF iv]
    by (simp add: rsi_step_def py_div_def ag'_def al'_def)
  have ni: "nat i < n" using iv old(3) by simp
  have "rsi_inv period n (i + 1) (ag', al', vals[nat i := Some (rsi_formula ag' al')])"
    unfolding rsi_inv_def prod.case
  proof (intro conjI allI impI)
    fix j assume j: "j < n"
    show "if period \<le> int j \<and> int j < i + 1
      then \<exists>v. vals[nat i := Some (rsi_formula ag' al')] ! j = Some v \<and> 0 \<le> v \<and> v \<le> 100
      else vals[nat i := Some (rsi_formula ag' al')] ! j = None"
    proof (cases "j = nat i")
      case True
      then show ?thesis using i iv ni old(3) rsi_formula_bounds[OF ag al] by simp
    next
      case False
      then have "(period \<le> int j \<and> int j < i + 1) = (period \<le> int j \<and> int j < i)"
        using iv by linarith
      then show ?thesis using False pat[OF j] by simp
    qed
  qed (use ag al ni old(3) iv in simp_all)
  then show ?thesis using step by blast
qed

lemma rsi_loop_inv:
  assumes p: "0 < period" and ab: "period + 1 \<le> a" "a \<le> b" "b \<le> int n"
    and lg: "length gains = n - 1" and ll: "length losses = n - 1"
    and g: "\<And>x. x \<in> set gains \<Longrightarrow> 0 \<le> x" and l: "\<And>x. x \<in> set losses \<Longrightarrow> 0 \<le> x"
    and inv: "rsi_inv period n a st"
  shows "\<exists>st'. for_loop (py_range a b) (rsi_step gains losses period) st = Inr st'
      \<and> rsi_inv period n b st'
      \<and> (\<forall>j. int j < a \<longrightarrow> snd (snd st') ! j = snd (snd st) ! j)"
proof -
  define P where "P i s \<longleftrightarrow> rsi_inv period n i s
      \<and> (\<forall>j. int j < a \<longrightarrow> snd (snd s) ! j = snd (snd st) ! j)" for i s
  have "\<exists>s'. for_loop (py_range a b) (rsi_step gains losses period) st = Inr s' \<and> P (max a b) s'"
  proof (rule for_loop_range_rule)
    show "P a st" using inv by (simp add: P_def)
  next
    fix i s assume i: "a \<le> i" "i < b" and Pi: "P i s"
    obtain ag al vals where s: "s = (ag, al, vals)" by (cases s) auto
    have i': "period + 1 \<le> i" "i < int n" using i ab by simp_all
    have inv': "rsi_inv period n i (ag, al, vals)" using Pi s by (simp add: P_def)
    from rsi_step_inv[OF p i' lg ll g l inv']
    obtain ag' al' v where
      st: "rsi_step gains losses period i (ag, al, vals) = Inr (ag', al', vals[nat i := Some v])"
      and nx: "rsi_inv period n (i + 1) (ag', al', vals[nat i := Some v])" by blast
    have "vals[nat i := Some v] ! j = snd (snd st) ! j" if "int j < a" for j
    proof -
      have "j \<noteq> nat i" using that i by linarith
      then show ?thesis using Pi s that by (simp add: P_def)
    qed
    then have "P (i + 1) (ag', al', vals[nat i := Some v])" using nx by (simp add: P_def)
    then show "\<exists>s'. rsi_step gains losses period i s = Inr s' \<and> P (i + 1) s'"
      using st s by simp
  qed
  then show ?thesis using ab(2) by (simp add: P_def max_def)
qed

lemma rsi_run_inv:
  assumes p: "0 < period" and stop: "period + 1 \<le> stop" "stop \<le> int (length closes)"
  shows "\<exists>st. rsi_run closes period stop = Inr st \<and> rsi_inv period (length closes) stop st"
proof -
  have n: "period + 1 \<le> int (length closes)" using stop by simp
  have g: "\<And>x. x \<in> set (gains_list closes) \<Longrightarrow> 0 \<le> x" by (rule gains_list_nonneg)
  have l: "\<And>x. x \<in> set (losses_list closes) \<Longrightarrow> 0 \<le> x" by (rule losses_list_nonneg)
  from rsi_seed_inv[OF p n g l]
  obtain st0 where st0: "rsi_seed (gains_list closes) (losses_list closes) period (length closes) = Inr st0"
    "rsi_inv period (length closes) (period + 1) st0" by blast
  from rsi_loop_inv[OF p order_refl stop length_gains_list length_losses_list g l st0(2)]
  obtain st where "for_loop (py_range (period + 1) stop)
      (rsi_step (gains_list closes) (losses_list closes) period) st0 = Inr st"
    "rsi_inv period (length closes) stop st" by blast
  then show ?thesis using st0(1) by (simp add: rsi_run_unfold)
qed

lemma rsi_run_extend:
  assumes p: "0 < period" and stop: "period + 1 \<le> stop" "stop \<le> int (length closes)"
    and run: "rsi_run closes period stop = Inr st"
  shows "\<exists>st'. rsi_run closes period (int (length closes)) = Inr st'
      \<and> rsi_inv period (length closes) (int (length closes)) st'
      \<and> (\<forall>j. int j < stop \<longrightarrow> snd (snd st') ! j = snd (snd st) ! j)"
proof -
  let ?step = "rsi_step (gains_list closes) (losses_list closes) period"
  from rsi_run_inv[OF p stop] run have inv: "rsi_inv period (length closes) stop st" by simp
  have stop': "period + 1 \<le> stop" "stop \<le> int (length closes)" "int (length closes) \<le> int (length closes)"
    using stop by simp_all
  have g: "\<And>x. x \<in> set (gains_list closes) \<Longrightarrow> 0 \<le> x" by (rule gains_list_nonneg)
  have l: "\<And>x. x \<in> set (losses_list closes) \<Longrightarrow> 0 \<le> x" by (rule losses_list_nonneg)
  from rsi_loop_inv[OF p stop'(1) stop'(2) stop'(3) length_gains_list length_losses_list g l inv]
  obtain st' where st': "for_loop (py_range stop (int (length closes))) ?step st = Inr st'"
    "rsi_inv period (length closes) (int (length closes)) st'"
    "\<forall>j. int j < stop \<longrightarrow> snd (snd st') ! j = snd (snd st) ! j" by blast
  obtain st0 where st0: "rsi_seed (gains_list closes) (losses_list closes) period (length closes) = Inr st0"
    "for_loop (py_range (period + 1) stop) ?step st0 = Inr st"
    using run by (auto simp: rsi_run_unfold ebind_eq_Inr)
  have "py_range (period + 1) (int (length closes))
      = py_range (period + 1) stop @ py_range stop (int (length closes))"
    using stop by (rule py_range_split)
  then have "rsi_run closes period (int (length closes)) = Inr st'"
    using st0 st'(1) by (simp add: rsi_run_unfold for_loop_append)
  then show ?thesis using st'(2,3) by blast
qed

lemma calculate_rsi_short:
  "int (length closes) < period + 1 \<Longrightarrow> calculate_rsi closes period = Inr (replicate (length closes) None)"
  by (simp add: calculate_rsi_def)

lemma calculate_rsi_long:
  assumes p: "0 < period" and n: "period + 1 \<le> int (length closes)"
  shows "\<exists>ag al vals. rsi_run closes period (int (length closes)) = Inr (ag, al, vals)
      \<and> calculate_rsi closes period = Inr vals
      \<and> rsi_inv period (length closes) (int (length closes)) (ag, al, vals)"
proof -
  from rsi_run_inv[OF p n order_refl]
  obtain st where st: "rsi_run closes period (int (length closes)) = Inr st"
    "rsi_inv period (length closes) (int (length closes)) st" by blast
  obtain ag al vals where "st = (ag, al, vals)" by (cases st) auto
  then show ?thesis using st n by (simp add: calculate_rsi_def)
qed

lemma in_percent_replicate_None [simp]: "in_percent (replicate n None)"
  by (simp add: in_percent_def)

lemma valid_from_replicate_None: "n \<le> t \<Longrightarrow> valid_from t (replicate n None)"
  by (simp add: valid_from_def)

lemma rsi_inv_final:
  assumes "rsi_inv period n (int n) (ag, al, vals)" "0 < period"
  shows "length vals = n" "valid_from (nat period) vals" "in_percent vals"
proof -
  have len: "length vals = n"
    and pat: "\<And>j. j < n \<Longrightarrow> if period \<le> int j \<and> int j < int n
                  then \<exists>v. vals ! j = Some v \<and> 0 \<le> v \<and> v \<le> 100
                  else vals ! j = None"
    using assms(1) by (simp_all add: rsi_inv_def)
  show "length vals = n" by (rule len)
  show "valid_from (nat period) vals"
    unfolding valid_from_def
  proof (intro allI impI)
    fix j assume "j < length vals"
    then have j: "j < n" using len by simp
    show "(vals ! j = None) = (j < nat period)"
    proof (cases "period \<le> int j")
      case True
      then have "\<exists>v. vals ! j = Some v" using pat[OF j] j by auto
      then show ?thesis using True assms(2) by auto
    next
      case False
      then have "vals ! j = None" using pat[OF j] by simp
      then show ?thesis using False by auto
    qed
  qed
  show "in_percent vals"
    unfolding in_percent_def
  proof
    fix x assume "x \<in> set vals"
    then obtain j where j: "j < n" "x = vals ! j" using len by (metis in_set_conv_nth)
    show "case x of None \<Rightarrow> True | Some v \<Rightarrow> 0 \<le> v \<and> v \<le> 100"
      using pat[OF j(1)] j(2) by (cases x) (auto split: if_splits)
  qed
qed

text \<open>The RSI stage as a whole, for a positive period.\<close>

lemma calculate_rsi_total:
  assumes p: "0 < period"
  shows "\<exists>vals. calculate_rsi closes period = Inr vals \<and> length vals = length closes
      \<and> in_percent vals
      \<and> valid_from (if period + 1 \<le> int (length closes) then nat period else length closes) vals"
proof (cases "period + 1 \<le> int (length closes)")
  case True
  from calculate_rsi_long[OF p True]
  obtain ag al vals where v: "calculate_rsi closes period = Inr vals"
    "rsi_inv period (length closes) (int (length closes)) (ag, al, vals)" by blast
  show ?thesis using v(1) rsi_inv_final[OF v(2) p] True by simp
next
  case False
  then have "calculate_rsi closes period = Inr (replicate (length closes) None)"
    by (simp add: calculate_rsi_short)
  then show ?thesis using False by (simp add: valid_from_replicate_None)
qed

subsection \<open>Null prefixes and the range of the values\<close>

lemma window_has_None:
  assumes p: "0 < period" and j: "period - 1 \<le> int j" "j < length xs"
    and v: "valid_from t xs"
  shows "None \<in> set (window_of xs period j) \<longleftrightarrow> j < t + nat period - 1"
proof -
  have pj: "nat period \<le> j + 1" using p j by linarith
  have set: "set (window_of xs period j) = {xs ! m | m. j + 1 - nat period \<le> m \<and> m \<le> j}"
    using p j by (rule window_of_set)
  show ?thesis
  proof
    assume "None \<in> set (window_of xs period j)"
    then obtain m where m: "xs ! m = None" "j + 1 - nat period \<le> m" "m \<le> j"
      unfolding set by force
    then have "m < t" using v j(2) by (simp add: valid_from_def)
    then show "j < t + nat period - 1" using m(2) pj by linarith
  next
    assume "j < t + nat period - 1"
    then have "j + 1 - nat period < t" using pj by linarith
    moreover have "j + 1 - nat period < length xs" using j(2) p by linarith
    ultimately have "xs ! (j + 1 - nat period) = None" using v by (simp add: valid_from_def)
    moreover have "j + 1 - nat period \<le> j" using p by linarith
    ultimately show "None \<in> set (window_of xs period j)" unfolding set by force
  qed
qed

lemma sma_rule_None: "sma_rule xs period j = None \<longleftrightarrow> None \<in> set (window_of xs period j)"
  by (simp add: sma_rule_def Let_def)

lemma stoch_k_rule_None: "stoch_k_rule xs period j = None \<longleftrightarrow> None \<in> set (window_of xs period j)"
  by (simp add: stoch_k_rule_def Let_def)

lemma valid_from_window_map:
  assumes p: "0 < period" and v: "valid_from t xs"
    and f: "\<And>j. f j = None \<longleftrightarrow> None \<in> set (window_of xs period j)"
  shows "valid_from (t + nat period - 1)
    (map (\<lambda>j. if period - 1 \<le> int j then f j else None) [0..<length xs])"
  unfolding valid_from_def
proof (intro allI impI)
  fix j assume "j < length (map (\<lambda>j. if period - 1 \<le> int j then f j else None) [0..<length xs])"
  then have j: "j < length xs" by simp
  show "(map (\<lambda>j. if period - 1 \<le> int j then f j else None) [0..<length xs] ! j = None)
      = (j < t + nat period - 1)"
  proof (cases "period - 1 \<le> int j")
    case True
    then show ?thesis using j f window_has_None[OF p True j v] by simp
  next
    case False
    then have "j < t + nat period - 1" using p by linarith
    then show ?thesis using False j by simp
  qed
qed

lemma calculate_sma_valid_from:
  assumes "0 < period" "valid_from t xs"
  shows "\<exists>ys. calculate_sma xs period = Inr ys \<and> length ys = length xs
      \<and> valid_from (t + nat period - 1) ys"
  using calculate_sma_eq[OF assms(1), of xs] valid_from_window_map[OF assms sma_rule_None]
  by simp

lemma calculate_stoch_k_valid_from:
  assumes "0 < period" "valid_from t xs"
  shows "\<exists>ys. calculate_stoch_k xs period = Inr ys \<and> length ys = length xs
      \<and> valid_from (t + nat period - 1) ys"
  using calculate_stoch_k_eq[OF assms(1), of xs] valid_from_window_map[OF assms stoch_k_rule_None]
  by simp

lemma stoch_k_rule_percent:
  assumes p: "0 < period" and j: "period - 1 \<le> int j" "j < length xs"
    and s: "stoch_k_rule xs period j = Some v"
  shows "0 \<le> v \<and> v \<le> 100"
proof -
  let ?w = "window_of xs period j"
  let ?S = "set (map the ?w)"
  have nn: "None \<notin> set ?w" using s stoch_k_rule_None[of xs period j] by auto
  have "xs ! j \<in> set ?w" using p j by (rule window_of_last)
  then have mem: "the (xs ! j) \<in> ?S" by simp
  have fin: "finite ?S" by simp
  have lo: "Min ?S \<le> the (xs ! j)" using fin mem by (rule Min_le)
  have hi: "the (xs ! j) \<le> Max ?S" using fin mem by (rule Max_ge)
  show ?thesis
  proof (cases "Max ?S = Min ?S")
    case True
    then show ?thesis using s nn by (simp add: stoch_k_rule_def Let_def)
  next
    case False
    then have d: "0 < Max ?S - Min ?S" using lo hi by linarith
    define q where "q = (the (xs ! j) - Min ?S) / (Max ?S - Min ?S)"
    have v: "v = q * 100"
      using s nn False unfolding q_def by (simp add: stoch_k_rule_def Let_def)
    have "0 \<le> q" using lo d by (simp add: q_def)
    moreover have "q \<le> 1" using hi d by (simp add: q_def)
    ultimately show ?thesis using v by simp
  qed
qed

lemma in_percent_map:
  assumes "\<And>j v. j < n \<Longrightarrow> f j = Some v \<Longrightarrow> 0 \<le> v \<and> v \<le> 100"
  shows "in_percent (map f [0..<n])"
  unfolding in_percent_def
proof
  fix x assume "x \<in> set (map f [0..<n])"
  then obtain j where "j < n" "x = f j" by auto
  then show "case x of None \<Rightarrow> True | Some v \<Rightarrow> 0 \<le> v \<and> v \<le> 100"
    using assms[of j] by (cases "f j") auto
qed

lemma calculate_stoch_k_percent:
  assumes p: "0 < period"
  shows "\<exists>ys. calculate_stoch_k xs period = Inr ys \<and> in_percent ys"
proof -
  have "in_percent (map (\<lambda>j. if period - 1 \<le> int j then stoch_k_rule xs period j else None)
      [0..<length xs])"
  proof (rule in_percent_map)
    fix j v assume "j < length xs"
      "(if period - 1 \<le> int j then stoch_k_rule xs period j else None) = Some v"
    then show "0 \<le> v \<and> v \<le> 100"
      using stoch_k_rule_percent[OF p, of j xs v] by (auto split: if_splits)
  qed
  then show ?thesis using calculate_stoch_k_eq[OF p, of xs] by simp
qed

lemma sum_list_bounds:
  assumes "\<And>x. x \<in> set vs \<Longrightarrow> (0::real) \<le> x \<and> x \<le> c"
  shows "0 \<le> sum_list vs \<and> sum_list vs \<le> c * real (length vs)"
  using assms
proof (induction vs)
  case Nil
  show ?case by simp
next
  case (Cons x vs)
  then have "0 \<le> sum_list vs \<and> sum_list vs \<le> c * real (length vs)" by simp
  moreover have "0 \<le> x \<and> x \<le> c" using Cons.prems by simp
  ultimately show ?case by (simp add: algebra_simps)
qed

lemma sma_rule_percent:
  assumes p: "0 < period" and j: "period - 1 \<le> int j" "j < length xs"
    and xs: "in_percent xs"
    and s: "sma_rule xs period j = Some v"
  shows "0 \<le> v \<and> v \<le> 100"
proof -
  let ?w = "window_of xs period j"
  have nn: "None \<notin> set ?w" using s sma_rule_None[of xs period j] by auto
  have len: "length ?w = nat period" using p j by (rule window_of_length)
  have sub: "set ?w \<subseteq> set xs" by (auto simp: window_of_def dest: in_set_takeD in_set_dropD)
  have "0 \<le> x \<and> x \<le> 100" if "x \<in> set (map the ?w)" for x
  proof -
    from that obtain y where y: "y \<in> set ?w" "x = the y" by auto
    have "y \<noteq> None" using y(1) nn by metis
    moreover have "y \<in> set xs" using y(1) sub by blast
    ultimately show ?thesis using xs y(2) by (cases y) (auto simp: in_percent_def)
  qed
  then have "0 \<le> sum_list (map the ?w) \<and> sum_list (map the ?w) \<le> 100 * real (length (map the ?w))"
    by (rule sum_list_bounds)
  then have b: "0 \<le> sum_list (map the ?w)" "sum_list (map the ?w) \<le> 100 * real_of_int period"
    using len p by simp_all
  have v: "v = sum_list (map the ?w) / real_of_int period"
    using s nn by (simp add: sma_rule_def Let_def)
  have "0 \<le> v" using b(1) p by (simp add: v)
  moreover have "v \<le> 100" using b(2) p by (simp add: v divide_le_eq)
  ultimately show ?thesis by simp
qed

lemma calculate_sma_percent:
  assumes p: "0 < period" and xs: "in_percent xs"
  shows "\<exists>ys. calculate_sma xs period = Inr ys \<and> in_percent ys"
proof -
  have "in_percent (map (\<lambda>j. if period - 1 \<le> int j then sma_rule xs period j else None)
      [0..<length xs])"
  proof (rule in_percent_map)
    fix j v assume "j < length xs"
      "(if period - 1 \<le> int j then sma_rule xs period j else None) = Some v"
    then show "0 \<le> v \<and> v \<le> 100"
      using sma_rule_percent[OF p _ _ xs, of j v] by (auto split: if_splits)
  qed
  then show ?thesis using calculate_sma_eq[OF p, of xs] by simp
qed

subsection \<open>The driver\<close>

lemma assemble_eq:
  assumes "length sk = n" "length ds = n" "length rs = n"
  shows "for_loop (py_range 0 (int n))
          (\<lambda>i result.
             ebind (py_get sk i) (\<lambda>kv.
             ebind (py_get ds i) (\<lambda>dv.
             ebind (py_get rs i) (\<lambda>rv.
             Inr (result @ [\<lparr>val_k = kv, val_d = dv, val_rsi = rv\<rparr>])))))
          []
    = Inr (map (\<lambda>i. \<lparr>val_k = sk ! i, val_d = ds ! i, val_rsi = rs ! i\<rparr>) [0..<n])"
proof -
  define f where "f = (\<lambda>i. \<lparr>val_k = sk ! i, val_d = ds ! i, val_rsi = rs ! i\<rparr>)"
  define body where "body = (\<lambda>i result.
             ebind (py_get sk i) (\<lambda>kv.
             ebind (py_get ds i) (\<lambda>dv.
             ebind (py_get rs i) (\<lambda>rv.
             Inr (result @ [\<lparr>val_k = kv, val_d = dv, val_rsi = rv\<rparr>])))))"
  define P where "P i acc \<longleftrightarrow> acc = map f [0..<nat i]" for i acc
  have "\<exists>s'. for_loop (py_range 0 (int n)) body [] = Inr s' \<and> P (max 0 (int n)) s'"
  proof (rule for_loop_range_rule)
    show "P 0 []" by (simp add: P_def)
  next
    fix i acc assume i: "0 \<le> i" "i < int n" and inv: "P i acc"
    have "nat (i + 1) = Suc (nat i)" using i by simp
    then have "P (i + 1) (acc @ [f (nat i)])" using inv by (simp add: P_def)
    then show "\<exists>s'. body i acc = Inr s' \<and> P (i + 1) s'"
      using i assms by (simp add: body_def py_get_ok f_def)
  qed
  then show ?thesis by (simp add: P_def body_def f_def)
qed

lemma calculate_short:
  assumes "int (length closes) < min_length self"
  shows "calculate_with rsi_stage stoch_stage sma_stage self closes
    = Inr (replicate (length closes) null_value)"
  using assms by (simp add: calculate_with_def min_length_def)

lemma calculate_pipeline:
  assumes cfg: "valid_config self" and long: "min_length self \<le> int (length closes)"
  obtains rs ks sk ds where
    "calculate_rsi closes (rsi_length self) = Inr rs"
    "calculate_stoch_k rs (stoch_length self) = Inr ks"
    "calculate_sma ks (k_smooth self) = Inr sk"
    "calculate_sma sk (d_smooth self) = Inr ds"
    "length rs = length closes" "length ks = length closes"
    "length sk = length closes" "length ds = length closes"
    "calculate self closes
      = Inr (map (\<lambda>i. \<lparr>val_k = sk ! i, val_d = ds ! i, val_rsi = rs ! i\<rparr>) [0..<length closes])"
    "valid_from (nat (rsi_length self)) rs"
    "valid_from (nat (rsi_length self + stoch_length self + k_smooth self - 2)) sk"
    "valid_from (nat (rsi_length self + stoch_length self + k_smooth self + d_smooth self - 3)) ds"
    "in_percent rs" "in_percent ks" "in_percent sk" "in_percent ds"
proof -
  have pos: "0 < rsi_length self" "0 < stoch_length self" "0 < k_smooth self" "0 < d_smooth self"
    using cfg by (simp_all add: valid_config_def)
  have n: "rsi_length self + 1 \<le> int (length closes)"
    using pos long by (simp add: min_length_def)
  from calculate_rsi_total[OF pos(1), of closes] n
  obtain rs where rs: "calculate_rsi closes (rsi_length self) = Inr rs" "length rs = length closes"
    "in_percent rs" "valid_from (nat (rsi_length self)) rs" by auto
  from calculate_stoch_k_valid_from[OF pos(2) rs(4)]
  obtain ks where ks: "calculate_stoch_k rs (stoch_length self) = Inr ks" "length ks = length rs"
    "valid_from (nat (rsi_length self) + nat (stoch_length self) - 1) ks" by blast
  have ksp: "in_percent ks" using calculate_stoch_k_percent[OF pos(2), of rs] ks(1) by simp
  from calculate_sma_valid_from[OF pos(3) ks(3)]
  obtain sk where sk: "calculate_sma ks (k_smooth self) = Inr sk" "length sk = length ks"
    "valid_from (nat (rsi_length self) + nat (stoch_length self) - 1 + nat (k_smooth self) - 1) sk"
    by blast
  have skp: "in_percent sk" using calculate_sma_percent[OF pos(3) ksp] sk(1) by simp
  from calculate_sma_valid_from[OF pos(4) sk(3)]
  obtain ds where ds: "calculate_sma sk (d_smooth self) = Inr ds" "length ds = length sk"
    "valid_from (nat (rsi_length self) + nat (stoch_length self) - 1 + nat (k_smooth self) - 1
        + nat (d_smooth self) - 1) ds"
    by blast
  have dsp: "in_percent ds" using calculate_sma_percent[OF pos(4) skp] ds(1) by simp
  have t1: "nat (rsi_length self) + nat (stoch_length self) - 1 + nat (k_smooth self) - 1
      = nat (rsi_length self + stoch_length self + k_smooth self - 2)"
    using pos by linarith
  have t2: "nat (rsi_length self) + nat (stoch_length self) - 1 + nat (k_smooth self) - 1
        + nat (d_smooth self) - 1
      = nat (rsi_length self + stoch_length self + k_smooth self + d_smooth self - 3)"
    using pos by linarith
  have lens: "length sk = length closes" "length ds = length closes" "length ks = length closes"
    using rs(2) ks(2) sk(2) ds(2) by simp_all
  have "calculate self closes
      = Inr (map (\<lambda>i. \<lparr>val_k = sk ! i, val_d = ds ! i, val_rsi = rs ! i\<rparr>) [0..<length closes])"
    using long rs(1) ks(1) sk(1) ds(1) assemble_eq[OF lens(1) lens(2) rs(2)]
    by (simp add: calculate_def calculate_with_def min_length_def)
  then show ?thesis
    using that[OF rs(1) ks(1) sk(1) ds(1) rs(2) lens(3) lens(1) lens(2)] rs(3,4) ksp skp dsp
      sk(3) ds(3) t1 t2 by simp
qed

lemma calculate_total:
  assumes cfg: "valid_config self"
  shows "\<exists>out. calculate self closes = Inr out \<and> length out = length closes"
proof (cases "int (length closes) < min_length self")
  case True
  then show ?thesis by (simp add: calculate_def calculate_short)
next
  case False
  then have long: "min_length self \<le> int (length closes)" by simp
  show ?thesis
  proof (rule calculate_pipeline[OF cfg long])
    fix rs ks sk ds
    assume "calculate self closes
      = Inr (map (\<lambda>i. \<lparr>val_k = sk ! i, val_d = ds ! i, val_rsi = rs ! i\<rparr>) [0..<length closes])"
    then show ?thesis by simp
  qed
qed

lemma valid_from_nth:
  "valid_from (nat t) xs \<Longrightarrow> i < length xs \<Longrightarrow> (xs ! i = None) = (int i < t)"
  unfolding valid_from_def by (metis zless_nat_eq_int_zless)

lemma calculate_null_pattern:
  assumes cfg: "valid_config self" and long: "min_length self \<le> int (length closes)"
    and i: "i < length closes"
  shows "\<exists>out. calculate self closes = Inr out \<and> length out = length closes
    \<and> (val_rsi (out ! i) = None) = (int i < rsi_length self)
    \<and> (val_k (out ! i) = None) = (int i < rsi_length self + stoch_length self + k_smooth self - 2)
    \<and> (val_d (out ! i) = None)
        = (int i < rsi_length self + stoch_length self + k_smooth self + d_smooth self - 3)"
proof (rule calculate_pipeline[OF cfg long])
  fix rs ks sk ds
  assume len: "length rs = length closes" "length sk = length closes" "length ds = length closes"
    and out: "calculate self closes
      = Inr (map (\<lambda>i. \<lparr>val_k = sk ! i, val_d = ds ! i, val_rsi = rs ! i\<rparr>) [0..<length closes])"
    and v: "valid_from (nat (rsi_length self)) rs"
      "valid_from (nat (rsi_length self + stoch_length self + k_smooth self - 2)) sk"
      "valid_from (nat (rsi_length self + stoch_length self + k_smooth self + d_smooth self - 3)) ds"
  have "(rs ! i = None) = (int i < rsi_length self)"
    using v(1) i len(1) by (simp add: valid_from_nth)
  moreover have "(sk ! i = None) = (int i < rsi_length self + stoch_length self + k_smooth self - 2)"
    using v(2) i len(2) by (simp add: valid_from_nth)
  moreover have "(ds ! i = None)
      = (int i < rsi_length self + stoch_length self + k_smooth self + d_smooth self - 3)"
    using v(3) i len(3) by (simp add: valid_from_nth)
  ultimately show ?thesis using out i by simp
qed

lemma window_of_map_nth:
  assumes "0 < period" "period - 1 \<le> int i" "i < length xs"
  shows "window_of xs period i = map (\<lambda>j. xs ! j) [i + 1 - nat period..<i + 1]"
proof (rule nth_equalityI)
  show "length (window_of xs period i) = length (map (\<lambda>j. xs ! j) [i + 1 - nat period..<i + 1])"
    using window_of_length[OF assms] assms by (simp del: upt_Suc)
next
  fix m assume "m < length (window_of xs period i)"
  then have m: "m < nat period" using window_of_length[OF assms] by simp
  have "nat period \<le> i + 1" using assms by linarith
  then have "i + 1 - nat period + m < i + 1" using m by linarith
  then show "window_of xs period i ! m = map (\<lambda>j. xs ! j) [i + 1 - nat period..<i + 1] ! m"
    using window_of_nth[OF assms m] m by (simp del: upt_Suc)
qed

lemma window_of_values:
  assumes "0 < period" "period - 1 \<le> int i" "i < length xs"
  shows "set (map the (window_of xs period i)) = {the (xs ! j) | j. i + 1 - nat period \<le> j \<and> j \<le> i}"
proof -
  have "set (map the (window_of xs period i)) = (\<lambda>j. the (xs ! j)) ` {i + 1 - nat period..<i + 1}"
    unfolding window_of_map_nth[OF assms] by (simp del: upt_Suc add: image_image)
  also have "\<dots> = {the (xs ! j) | j. i + 1 - nat period \<le> j \<and> j \<le> i}"
    by (auto simp: image_def)
  finally show ?thesis .
qed

lemma window_of_sum:
  assumes "0 < period" "period - 1 \<le> int i" "i < length xs"
  shows "sum_list (map the (window_of xs period i)) = (\<Sum>j = i + 1 - nat period..i. the (xs ! j))"
proof -
  have "sum_list (map the (window_of xs period i))
      = sum_list (map (\<lambda>j. the (xs ! j)) [i + 1 - nat period..<i + 1])"
    unfolding window_of_map_nth[OF assms] by (simp del: upt_Suc add: comp_def)
  also have "\<dots> = (\<Sum>j = i + 1 - nat period..<i + 1. the (xs ! j))"
    by (simp del: upt_Suc add: interv_sum_list_conv_sum_set_nat)
  also have "{i + 1 - nat period..<i + 1} = {i + 1 - nat period..i}" by auto
  finally show ?thesis .
qed

lemma window_None_iff:
  assumes "0 < period" "period - 1 \<le> int i" "i < length xs"
  shows "None \<in> set (window_of xs period i) \<longleftrightarrow> (\<exists>j. i + 1 - nat period \<le> j \<and> j \<le> i \<and> xs ! j = None)"
proof
  assume "None \<in> set (window_of xs period i)"
  then obtain j where "None = xs ! j" "i + 1 - nat period \<le> j" "j \<le> i"
    unfolding window_of_set[OF assms] by blast
  then show "\<exists>j. i + 1 - nat period \<le> j \<and> j \<le> i \<and> xs ! j = None" by metis
next
  assume "\<exists>j. i + 1 - nat period \<le> j \<and> j \<le> i \<and> xs ! j = None"
  then obtain j where "xs ! j = None" "i + 1 - nat period \<le> j" "j \<le> i" by blast
  then have "None = xs ! j" by simp
  then show "None \<in> set (window_of xs period i)"
    unfolding window_of_set[OF assms] using \<open>i + 1 - nat period \<le> j\<close> \<open>j \<le> i\<close> by blast
qed


lemma stoch_k_rule_complete:
  assumes "0 < period" and "period - 1 \<le> int i" and "i < length rsi_values"
    and nn: "None \<notin> set (window_of rsi_values period i)"
    and W: "W = {the (rsi_values ! j) | j. i + 1 - nat period \<le> j \<and> j \<le> i}"
  shows "stoch_k_rule rsi_values period i
      = Some (if Max W = Min W then 50 else (the (rsi_values ! i) - Min W) / (Max W - Min W) * 100)"
proof -
  have vals: "set (map the (window_of rsi_values period i)) = W"
    unfolding W using assms(1-3) by (rule window_of_values)
  have "stoch_k_rule rsi_values period i
      = (let lo = Min (set (map the (window_of rsi_values period i)));
             hi = Max (set (map the (window_of rsi_values period i)))
         in Some (if hi = lo then 50 else (the (rsi_values ! i) - lo) / (hi - lo) * 100))"
    using nn by (simp add: stoch_k_rule_def Let_def)
  then show ?thesis unfolding vals by (simp add: Let_def)
qed


lemma window_values_flat:
  assumes "0 < period"
    and eq: "\<forall>j. i + 1 - nat period \<le> j \<and> j \<le> i \<longrightarrow> xs ! j = xs ! i"
  shows "{the (xs ! j) | j. i + 1 - nat period \<le> j \<and> j \<le> (i::nat)} = {the (xs ! i)}"
proof (rule set_eqI, rule iffI)
  fix x assume "x \<in> {the (xs ! j) | j. i + 1 - nat period \<le> j \<and> j \<le> i}"
  then obtain j where j: "x = the (xs ! j)" "i + 1 - nat period \<le> j" "j \<le> i"
    by blast
  have "xs ! j = xs ! i" using eq j(2,3) by blast
  then show "x \<in> {the (xs ! i)}" using j(1) by simp
next
  fix x assume "x \<in> {the (xs ! i)}"
  then have x: "x = the (xs ! i)" by simp
  have "i + 1 - nat period \<le> i" using assms(1) by linarith
  then show "x \<in> {the (xs ! j) | j. i + 1 - nat period \<le> j \<and> j \<le> i}"
    using x by blast
qed

lemma rsi_at_index:
  assumes p: "0 < period" and i: "period \<le> int i" "i < length closes"
  shows "\<exists>ag al vals rs. rsi_run closes period (int i + 1) = Inr (ag, al, vals)
      \<and> calculate_rsi closes period = Inr rs
      \<and> 0 \<le> ag \<and> 0 \<le> al \<and> rs ! i = Some (rsi_formula ag al)"
proof -
  have stop: "period + 1 \<le> int i + 1" "int i + 1 \<le> int (length closes)" using i by simp_all
  from rsi_run_inv[OF p stop]
  obtain st where st: "rsi_run closes period (int i + 1) = Inr st"
    "rsi_inv period (length closes) (int i + 1) st" by blast
  obtain ag al vals where tup: "st = (ag, al, vals)" by (cases st) auto
  have inv: "0 \<le> ag" "0 \<le> al" "vals ! i = Some (rsi_formula ag al)"
    using st(2) by (simp_all add: tup rsi_inv_def)
  from rsi_run_extend[OF p stop st(1)]
  obtain st' where st': "rsi_run closes period (int (length closes)) = Inr st'"
    "\<forall>j. int j < int i + 1 \<longrightarrow> snd (snd st') ! j = snd (snd st) ! j" by blast
  have same: "snd (snd st') ! i = vals ! i" using st'(2) tup by simp
  have "\<not> int (length closes) < period + 1" using stop by simp
  then have "calculate_rsi closes period = Inr (snd (snd st'))"
    using st'(1) by (simp add: calculate_rsi_def split_beta)
  then show ?thesis using st(1) tup inv same by auto
qed

lemma sum_list_zeros: "(\<And>x. x \<in> set xs \<Longrightarrow> x = (0::real)) \<Longrightarrow> sum_list xs = 0"
  by (induction xs) simp_all

lemma rsi_seed_averages:
  assumes "rsi_seed gains losses period n = Inr (ag, al, vals)"
  shows "ag = sum_list (py_prefix gains period) / real_of_int period"
    and "al = sum_list (py_prefix losses period) / real_of_int period"
  using assms by (auto simp: rsi_seed_def ebind_eq_Inr py_div_def split: if_splits)

lemma rsi_flat_seed:
  assumes p: "0 < period" and n: "period + 1 \<le> int (length closes)"
    and flat: "\<And>j. j \<le> nat period \<Longrightarrow> closes ! j = closes ! 0"
    and run: "rsi_run closes period (period + 1) = Inr (ag, al, vals)"
  shows "ag = 0 \<and> al = 0"
proof -
  have seed: "rsi_seed (gains_list closes) (losses_list closes) period (length closes)
      = Inr (ag, al, vals)"
    using run by (simp add: rsi_run_unfold ebind_eq_Inr)
  have d0: "deltas_list closes ! j = 0" if "j < nat period" for j
  proof -
    have "j < length closes - 1" using that n by linarith
    then have "deltas_list closes ! j = closes ! (j + 1) - closes ! j"
      by (simp add: deltas_list_def)
    moreover have "closes ! (j + 1) = closes ! 0" using that by (intro flat) simp
    moreover have "closes ! j = closes ! 0" using that by (intro flat) simp
    ultimately show ?thesis by simp
  qed
  have len: "nat period \<le> length (deltas_list closes)"
    using n by (simp add: deltas_list_def)
  have g0: "x = 0" if "x \<in> set (py_prefix (gains_list closes) period)" for x
  proof -
    from that p have "x \<in> set (take (nat period) (gains_list closes))" by (simp add: py_prefix_def)
    then obtain j where j: "j < nat period" "x = gains_list closes ! j"
      using len by (auto simp: in_set_conv_nth gains_list_def)
    then show ?thesis using d0[OF j(1)] len by (simp add: gains_list_def)
  qed
  have l0: "x = 0" if "x \<in> set (py_prefix (losses_list closes) period)" for x
  proof -
    from that p have "x \<in> set (take (nat period) (losses_list closes))" by (simp add: py_prefix_def)
    then obtain j where j: "j < nat period" "x = losses_list closes ! j"
      using len by (auto simp: in_set_conv_nth losses_list_def)
    then show ?thesis using d0[OF j(1)] len by (simp add: losses_list_def)
  qed
  show ?thesis
    using rsi_seed_averages[OF seed] sum_list_zeros[OF g0] sum_list_zeros[OF l0] by simp
qed




subsection \<open>Doubles: two inputs that overflow\<close>











subsection \<open>Calls on the store\<close>

lemma ebind_assoc: "ebind (ebind m f) g = ebind m (\<lambda>x. ebind (f x) g)"
  by (cases m) simp_all

lemma assemble_step_eq:
  "assemble_step ks ds rs r i st =
     ebind (reading_of ks ds rs i)
       (\<lambda>v. Inr (append_reading r (next_addr st) (snd (alloc (Reading v) st))))"
  by (simp add: assemble_step_def reading_of_def ebind_assoc alloc_def)

lemma pure_step_eq:
  "ebind (py_get ks i) (\<lambda>kv. ebind (py_get ds i) (\<lambda>dv. ebind (py_get rs i) (\<lambda>rv.
     Inr (acc @ [\<lparr>val_k = kv, val_d = dv, val_rsi = rv\<rparr>]))))
   = ebind (reading_of ks ds rs i) (\<lambda>v. Inr (acc @ [v]))"
  by (simp add: reading_of_def ebind_assoc)

lemma readings_at_eq:
  assumes "heap st r = Some (Readings as)" and "map (reading_at st) as = map Some acc"
  shows "readings_at st r = Some acc"
proof -
  have each: "reading_at st a = Some (acc ! i)" if "i < length as" "a = as ! i" for a i
  proof -
    have "map (reading_at st) as ! i = map Some acc ! i" using assms(2) by simp
    moreover have "length acc = length as" using assms(2) by (metis length_map)
    ultimately show ?thesis using that by simp
  qed
  have len: "length acc = length as" using assms(2) by (metis length_map)
  have all: "list_all (\<lambda>a. reading_at st a \<noteq> None) as"
    unfolding list_all_length using each by simp
  have "map (\<lambda>a. the (reading_at st a)) as = acc"
  proof (rule nth_equalityI)
    show "length (map (\<lambda>a. the (reading_at st a)) as) = length acc" using len by simp
  next
    fix i assume "i < length (map (\<lambda>a. the (reading_at st a)) as)"
    then show "map (\<lambda>a. the (reading_at st a)) as ! i = acc ! i" using each by simp
  qed
  then show ?thesis using assms(1) all by (simp add: readings_at_def)
qed

text \<open>The loop on the store builds, object by object, the list the loop on values builds.\<close>

lemma assemble_sim:
  assumes "heap st r = Some (Readings as)" and "r < next_addr st"
    and "\<forall>a \<in> set as. a < next_addr st \<and> a \<noteq> r"
    and "map (reading_at st) as = map Some acc"
  shows "case for_loop is (\<lambda>i result. ebind (reading_of ks ds rs i) (\<lambda>v. Inr (result @ [v]))) acc of
      Inl e \<Rightarrow> for_loop is (assemble_step ks ds rs r) st = Inl e
    | Inr out \<Rightarrow> (\<exists>st'. for_loop is (assemble_step ks ds rs r) st = Inr st'
        \<and> readings_at st' r = Some out
        \<and> next_addr st \<le> next_addr st'
        \<and> (\<forall>a < next_addr st. a \<noteq> r \<longrightarrow> heap st' a = heap st a)
        \<and> (wf_store st \<longrightarrow> wf_store st'))"
  using assms
proof (induction "is" arbitrary: st as acc)
  case Nil
  have "readings_at st r = Some acc" using Nil(1) Nil(4) by (rule readings_at_eq)
  then show ?case by simp
next
  case (Cons i "is")
  show ?case
  proof (cases "reading_of ks ds rs i")
    case (Inl e)
    then show ?thesis by (simp add: assemble_step_eq)
  next
    case (Inr v)
    define a where "a = next_addr st"
    define st1 where "st1 = append_reading r a (snd (alloc (Reading v) st))"
    have ar: "a \<noteq> r" using Cons.prems(2) by (simp add: a_def)
    have heap1: "heap st1 = (heap st)(a \<mapsto> Reading v, r \<mapsto> Readings (as @ [a]))"
      using Cons.prems(1) ar by (simp add: st1_def append_reading_def alloc_def a_def)
    have next1: "next_addr st1 = Suc (next_addr st)"
      using Cons.prems(1) ar by (simp add: st1_def append_reading_def alloc_def a_def)
    have p1: "heap st1 r = Some (Readings (as @ [a]))" by (simp add: heap1)
    have p2: "r < next_addr st1" using Cons.prems(2) next1 by simp
    have p3: "\<forall>x \<in> set (as @ [a]). x < next_addr st1 \<and> x \<noteq> r"
      using Cons.prems(3) next1 ar by (auto simp: a_def)
    have old: "reading_at st1 x = reading_at st x" if "x \<in> set as" for x
    proof -
      have "x \<noteq> a" "x \<noteq> r" using that Cons.prems(3) by (auto simp: a_def)
      then show ?thesis by (simp add: reading_at_def heap1)
    qed
    have new: "reading_at st1 a = Some v" using ar by (simp add: reading_at_def heap1)
    have "map (reading_at st1) as = map (reading_at st) as" using old by simp
    then have p4: "map (reading_at st1) (as @ [a]) = map Some (acc @ [v])"
      using Cons.prems(4) new by simp
    have step: "assemble_step ks ds rs r i st = Inr st1"
      using Inr by (simp add: assemble_step_eq st1_def a_def)
    have frame1: "heap st1 x = heap st x" if "x < next_addr st" "x \<noteq> r" for x
      using that by (simp add: heap1 a_def)
    have wf1: "wf_store st1" if "wf_store st"
      unfolding wf_store_def
    proof (intro allI impI)
      fix x assume "heap st1 x \<noteq> None"
      then have "x = a \<or> x = r \<or> heap st x \<noteq> None" by (auto simp: heap1 split: if_splits)
      then show "x < next_addr st1"
        using that Cons.prems(2) next1 by (auto simp: wf_store_def a_def less_Suc_eq)
    qed
    note IH = Cons.IH[OF p1 p2 p3 p4]
    show ?thesis
    proof (cases "for_loop is (\<lambda>i result. ebind (reading_of ks ds rs i) (\<lambda>v. Inr (result @ [v]))) (acc @ [v])")
      case (Inl e)
      then have "for_loop is (assemble_step ks ds rs r) st1 = Inl e" using IH by simp
      then show ?thesis using Inl Inr step by simp
    next
      case out: (Inr out)
      then obtain st' where st': "for_loop is (assemble_step ks ds rs r) st1 = Inr st'"
        "readings_at st' r = Some out" "next_addr st1 \<le> next_addr st'"
        "\<forall>a < next_addr st1. a \<noteq> r \<longrightarrow> heap st' a = heap st1 a"
        "wf_store st1 \<longrightarrow> wf_store st'"
        using IH by auto
      have "heap st' x = heap st x" if "x < next_addr st" "x \<noteq> r" for x
      proof -
        have "x < next_addr st1" using that(1) next1 by simp
        then have "heap st' x = heap st1 x" using st'(4) that(2) by blast
        then show ?thesis using frame1[OF that] by simp
      qed
      moreover have "next_addr st \<le> next_addr st'" using st'(3) next1 by simp
      moreover have "wf_store st \<longrightarrow> wf_store st'" using wf1 st'(5) by blast
      ultimately show ?thesis using out Inr step st'(1,2) by simp
    qed
  qed
qed

lemma calculate_as_loop:
  assumes "\<not> int (length closes) < rsi_length self + stoch_length self + k_smooth self + d_smooth self - 2"
  shows "calculate self closes =
     ebind (calculate_rsi closes (rsi_length self)) (\<lambda>rsi_values.
     ebind (calculate_stoch_k rsi_values (stoch_length self)) (\<lambda>k_values.
     ebind (calculate_sma k_values (k_smooth self)) (\<lambda>k_smoothed.
     ebind (calculate_sma k_smoothed (d_smooth self)) (\<lambda>d_values.
     for_loop (py_range 0 (int (length closes)))
       (\<lambda>i result. ebind (reading_of k_smoothed d_values rsi_values i) (\<lambda>v. Inr (result @ [v])))
       []))))"
  using assms by (simp add: calculate_def calculate_with_def pure_step_eq)

text \<open>What a call leaves in the store, and what the caller reads from it.\<close>

lemma calculate_body_spec:
  obtains res st' where "calculate_body self closes st = (res, st')"
    "outcome (Some (res, st')) = Some (calculate self closes)"
    "next_addr st \<le> next_addr st'"
    "\<forall>a < next_addr st. heap st' a = heap st a"
    "wf_store st \<longrightarrow> wf_store st'"
proof (cases "int (length closes) < rsi_length self + stoch_length self + k_smooth self + d_smooth self - 2")
  case True
  define a where "a = next_addr st"
  define st3 where "st3 = \<lparr>heap = (heap st)(a \<mapsto> Reading null_value, Suc a \<mapsto> Readings [a],
      Suc (Suc a) \<mapsto> Readings (replicate (length closes) a)), next_addr = Suc (Suc (Suc a))\<rparr>"
  have body: "calculate_body self closes st = (Inr (Suc (Suc a)), st3)"
    using True by (simp add: calculate_body_def alloc_def a_def st3_def null_value_def)
  have "reading_at st3 a = Some null_value" by (simp add: reading_at_def st3_def)
  then have "map (reading_at st3) (replicate (length closes) a)
      = map Some (replicate (length closes) null_value)" by simp
  moreover have "heap st3 (Suc (Suc a)) = Some (Readings (replicate (length closes) a))"
    by (simp add: st3_def)
  ultimately have "readings_at st3 (Suc (Suc a)) = Some (replicate (length closes) null_value)"
    by (rule readings_at_eq[rotated])
  moreover have "calculate self closes = Inr (replicate (length closes) null_value)"
    using True by (simp add: calculate_def calculate_with_def)
  ultimately have o: "outcome (Some (Inr (Suc (Suc a)), st3)) = Some (calculate self closes)"
    by (simp add: outcome_def)
  have f: "\<forall>x < next_addr st. heap st3 x = heap st x" by (simp add: st3_def a_def)
  have w: "wf_store st \<longrightarrow> wf_store st3"
    by (auto simp: wf_store_def st3_def a_def less_Suc_eq split: if_splits)
  have n: "next_addr st \<le> next_addr st3" by (simp add: st3_def a_def)
  show ?thesis using that[OF body o n f w] .
next
  case False
  note loop = calculate_as_loop[OF False]
  let ?stages = "ebind (calculate_rsi closes (rsi_length self)) (\<lambda>rsi_values.
             ebind (calculate_stoch_k rsi_values (stoch_length self)) (\<lambda>k_values.
             ebind (calculate_sma k_values (k_smooth self)) (\<lambda>k_smoothed.
             ebind (calculate_sma k_smoothed (d_smooth self)) (\<lambda>d_values.
             Inr (rsi_values, k_smoothed, d_values)))))"
  have split: "calculate self closes = ebind ?stages (\<lambda>(rs, sk, ds).
      for_loop (py_range 0 (int (length closes)))
       (\<lambda>i result. ebind (reading_of sk ds rs i) (\<lambda>v. Inr (result @ [v]))) [])"
    unfolding loop by (simp add: ebind_assoc)
  show ?thesis
  proof (cases ?stages)
    case (Inl e)
    have body: "calculate_body self closes st = (Inl e, st)"
      using False Inl by (simp add: calculate_body_def)
    have o: "outcome (Some (Inl e, st)) = Some (calculate self closes)"
      using split Inl by (simp add: outcome_def)
    show ?thesis using that[OF body o] by simp
  next
    case (Inr tup)
    obtain rs sk ds where tup: "tup = (rs, sk, ds)" by (cases tup) auto
    define r where "r = next_addr st"
    define st1 where "st1 = \<lparr>heap = (heap st)(r \<mapsto> Readings []), next_addr = Suc r\<rparr>"
    have al: "alloc (Readings []) st = (r, st1)" by (simp add: alloc_def r_def st1_def)
    have pure: "calculate self closes = for_loop (py_range 0 (int (length closes)))
       (\<lambda>i result. ebind (reading_of sk ds rs i) (\<lambda>v. Inr (result @ [v]))) []"
      using split Inr tup by simp
    have p1: "heap st1 r = Some (Readings [])" by (simp add: st1_def)
    have p2: "r < next_addr st1" by (simp add: st1_def)
    have p3: "\<forall>a \<in> set []. a < next_addr st1 \<and> a \<noteq> r" by simp
    have p4: "map (reading_at st1) [] = map Some []" by simp
    note sim = assemble_sim[OF p1 p2 p3 p4, of "py_range 0 (int (length closes))" sk ds rs]
    have f1: "\<forall>x < next_addr st. heap st1 x = heap st x" by (simp add: st1_def r_def)
    have w1: "wf_store st \<longrightarrow> wf_store st1"
      by (auto simp: wf_store_def st1_def r_def less_Suc_eq split: if_splits)
    show ?thesis
    proof (cases "calculate self closes")
      case e: (Inl e)
      then have "for_loop (py_range 0 (int (length closes))) (assemble_step sk ds rs r) st1 = Inl e"
        using sim pure by simp
      then have body: "calculate_body self closes st = (Inl e, st1)"
        using False Inr tup al by (simp add: calculate_body_def)
      have o: "outcome (Some (Inl e, st1)) = Some (calculate self closes)"
        using e by (simp add: outcome_def)
      have n: "next_addr st \<le> next_addr st1" by (simp add: st1_def r_def)
      show ?thesis using that[OF body o n f1 w1] .
    next
      case out: (Inr out)
      then obtain st2 where st2:
        "for_loop (py_range 0 (int (length closes))) (assemble_step sk ds rs r) st1 = Inr st2"
        "readings_at st2 r = Some out" "next_addr st1 \<le> next_addr st2"
        "\<forall>a < next_addr st1. a \<noteq> r \<longrightarrow> heap st2 a = heap st1 a"
        "wf_store st1 \<longrightarrow> wf_store st2"
        using sim pure by auto
      have body: "calculate_body self closes st = (Inr r, st2)"
        using False Inr tup al st2(1) by (simp add: calculate_body_def)
      have o: "outcome (Some (Inr r, st2)) = Some (calculate self closes)"
        using out st2(2) by (simp add: outcome_def)
      have n: "next_addr st \<le> next_addr st2" using st2(3) by (simp add: st1_def r_def)
      have f: "\<forall>x < next_addr st. heap st2 x = heap st x"
      proof (intro allI impI)
        fix x assume x: "x < next_addr st"
        then have "x < next_addr st1" "x \<noteq> r" by (simp_all add: st1_def r_def)
        then have "heap st2 x = heap st1 x" using st2(4) by blast
        then show "heap st2 x = heap st x" using f1 x by simp
      qed
      have w: "wf_store st \<longrightarrow> wf_store st2" using w1 st2(5) by blast
      show ?thesis using that[OF body o n f w] .
    qed
  qed
qed

lemma calculate_call_spec:
  assumes "heap st self_ref = Some (Calculator self)" and "heap st closes_ref = Some (Prices closes)"
  obtains res st' where "calculate_call self_ref closes_ref st = Some (res, st')"
    "outcome (Some (res, st')) = Some (calculate self closes)"
    "next_addr st \<le> next_addr st'"
    "\<forall>a < next_addr st. heap st' a = heap st a"
    "wf_store st \<longrightarrow> wf_store st'"
proof (rule calculate_body_spec[of self closes st])
  fix res st'
  assume b: "calculate_body self closes st = (res, st')"
    and rest: "outcome (Some (res, st')) = Some (calculate self closes)"
      "next_addr st \<le> next_addr st'"
      "\<forall>a < next_addr st. heap st' a = heap st a"
      "wf_store st \<longrightarrow> wf_store st'"
  have "calculate_call self_ref closes_ref st = Some (res, st')"
    using assms b by (simp add: calculate_call_def)
  then show thesis using rest by (rule that)
qed

lemma calculate_call_frame:
  assumes "wf_store st" and "calculate_call self_ref closes_ref st = Some (res, st')"
  shows "wf_store st' \<and> next_addr st \<le> next_addr st' \<and> (\<forall>a < next_addr st. heap st' a = heap st a)"
proof -
  obtain self closes where objs: "heap st self_ref = Some (Calculator self)"
    "heap st closes_ref = Some (Prices closes)"
    using assms(2) by (auto simp: calculate_call_def split: option.splits pyobj.splits)
  show ?thesis
  proof (rule calculate_call_spec[OF objs])
    fix res1 st1
    assume "calculate_call self_ref closes_ref st = Some (res1, st1)"
      and rest: "next_addr st \<le> next_addr st1" "\<forall>a < next_addr st. heap st1 a = heap st a"
        "wf_store st \<longrightarrow> wf_store st1"
    then have "st1 = st'" using assms(2) by simp
    then show ?thesis using rest assms(1) by simp
  qed
qed

lemma new_calculator_frame:
  assumes "wf_store st" and "new_calculator rl sl ks ds st = (c, st')"
  shows "wf_store st' \<and> next_addr st \<le> next_addr st' \<and> (\<forall>a < next_addr st. heap st' a = heap st a)"
    and "heap st' c = Some (Calculator \<lparr>rsi_length = rl, stoch_length = sl, k_smooth = ks, d_smooth = ds\<rparr>)"
  using assms by (auto simp: new_calculator_def alloc_def wf_store_def less_Suc_eq split: if_splits)

lemma run_call_frame:
  assumes "wf_store st"
  shows "wf_store (run_call c st) \<and> next_addr st \<le> next_addr (run_call c st)
    \<and> (\<forall>a < next_addr st. heap (run_call c st) a = heap st a)"
proof (cases c)
  case (New rl sl ks ds)
  obtain a st' where n: "new_calculator rl sl ks ds st = (a, st')" by (cases "new_calculator rl sl ks ds st")
  then show ?thesis using new_calculator_frame(1)[OF assms n] New by (simp add: run_call_def)
next
  case (Calculate self_ref closes_ref)
  show ?thesis
  proof (cases "calculate_call self_ref closes_ref st")
    case None
    then show ?thesis using assms Calculate by (simp add: run_call_def)
  next
    case (Some p)
    obtain res st' where p: "p = (res, st')" by (cases p)
    show ?thesis using calculate_call_frame[OF assms Some[unfolded p]] Calculate Some p
      by (simp add: run_call_def)
  qed
next
  case (CalculateStochRsi closes_ref rl sl ks ds)
  obtain a st1 where n: "new_calculator rl sl ks ds st = (a, st1)" by (cases "new_calculator rl sl ks ds st")
  note f1 = new_calculator_frame(1)[OF assms n]
  show ?thesis
  proof (cases "calculate_call a closes_ref st1")
    case None
    then show ?thesis using assms CalculateStochRsi n
      by (simp add: run_call_def calculate_stoch_rsi_call_def)
  next
    case (Some p)
    obtain res st' where p: "p = (res, st')" by (cases p)
    have f2: "wf_store st' \<and> next_addr st1 \<le> next_addr st' \<and> (\<forall>a < next_addr st1. heap st' a = heap st1 a)"
      using calculate_call_frame[OF _ Some[unfolded p]] f1 by blast
    have "heap st' x = heap st x" if "x < next_addr st" for x
    proof -
      have "x < next_addr st1" using that f1 by simp
      then show ?thesis using f1 f2 that by simp
    qed
    moreover have "next_addr st \<le> next_addr st'" using f1 f2 by simp
    moreover have "run_call c st = st'"
      using CalculateStochRsi n Some p by (simp add: run_call_def calculate_stoch_rsi_call_def)
    ultimately show ?thesis using f2 by simp
  qed
qed

lemma run_calls_frame:
  assumes "wf_store st"
  shows "wf_store (run_calls cs st) \<and> next_addr st \<le> next_addr (run_calls cs st)
    \<and> (\<forall>a < next_addr st. heap (run_calls cs st) a = heap st a)"
  using assms
proof (induction cs arbitrary: st)
  case Nil
  then show ?case by simp
next
  case (Cons c cs)
  note f1 = run_call_frame[OF Cons.prems, of c]
  then have w: "wf_store (run_call c st)" by simp
  note f2 = Cons.IH[OF w]
  have "heap (run_calls cs (run_call c st)) x = heap st x" if "x < next_addr st" for x
  proof -
    have "x < next_addr (run_call c st)" using that f1 by simp
    then show ?thesis using f1 f2 that by simp
  qed
  moreover have "next_addr st \<le> next_addr (run_calls cs (run_call c st))" using f1 f2 by simp
  ultimately show ?case using f2 by simp
qed

lemma calculate_config_only:
  assumes "rsi_length a = rsi_length b" and "stoch_length a = stoch_length b"
    and "k_smooth a = k_smooth b" and "d_smooth a = d_smooth b"
  shows "calculate a closes = calculate b closes"
    and "calculate a closes
      = calculate_stoch_rsi closes (rsi_length b) (stoch_length b) (k_smooth b) (d_smooth b)"
  using assms by (simp_all add: calculate_stoch_rsi_def calculate_def calculate_with_def)

lemma calculate_call_outcome:
  assumes "heap st self_ref = Some (Calculator self)" and "heap st closes_ref = Some (Prices closes)"
  shows "outcome (calculate_call self_ref closes_ref st) = Some (calculate self closes)"
proof (rule calculate_call_spec[OF assms])
  fix res st'
  assume "calculate_call self_ref closes_ref st = Some (res, st')"
    "outcome (Some (res, st')) = Some (calculate self closes)"
  then show ?thesis by simp
qed

section \<open>The claims\<close>


text \<open>
  C1. For every price list and every configuration of four positive integers,
  \<open>calculate\<close> returns a list exactly as long as the price list, in the branch
  that returns at once and in the branch that runs the stages.
\<close>

theorem calculate_length:
  assumes "valid_config self"
  shows "\<exists>out. calculate self closes = Inr out \<and> length out = length closes"
  using assms by (rule calculate_total)

theorem calculate_length_witness:
  "(\<exists>out. calculate \<lparr>rsi_length = 14, stoch_length = 14, k_smooth = 3, d_smooth = 3\<rparr> [10, 11, 12] = Inr out
      \<and> length out = length [10, 11, 12 :: real])
   \<and> (\<exists>out. calculate \<lparr>rsi_length = 1, stoch_length = 2, k_smooth = 1, d_smooth = 1\<rparr> [1, 2, 3] = Inr out
      \<and> length out = length [1, 2, 3 :: real])"
proof -
  have a: "valid_config \<lparr>rsi_length = 14, stoch_length = 14, k_smooth = 3, d_smooth = 3\<rparr>"
    by (simp add: valid_config_def)
  have b: "valid_config \<lparr>rsi_length = 1, stoch_length = 2, k_smooth = 1, d_smooth = 1\<rparr>"
    by (simp add: valid_config_def)
  show ?thesis
    using calculate_length[OF a, of "[10, 11, 12]"] calculate_length[OF b, of "[1, 2, 3]"]
    by blast
qed

text \<open>
  C3. A price list shorter than
  \<open>rsi_length + stoch_length + k_smooth + d_smooth - 2\<close> makes \<open>calculate\<close>
  return a list of the same length whose readings are null in every field, and no
  stage runs: the result is the same whatever the three stages are, also when they
  would raise.
\<close>

theorem calculate_short_circuit:
  assumes "int (length closes) < rsi_length self + stoch_length self + k_smooth self + d_smooth self - 2"
  shows "calculate self closes
      = Inr (replicate (length closes) \<lparr>val_k = None, val_d = None, val_rsi = None\<rparr>)
    \<and> calculate_with rsi_stage stoch_stage sma_stage self closes
      = Inr (replicate (length closes) \<lparr>val_k = None, val_d = None, val_rsi = None\<rparr>)"
  using assms by (simp add: calculate_def calculate_with_def null_value_def)

theorem calculate_short_circuit_witness:
  "int (length [10, 11, 12 :: real]) < 14 + 14 + 3 + 3 - 2
   \<and> calculate \<lparr>rsi_length = 14, stoch_length = 14, k_smooth = 3, d_smooth = 3\<rparr> [10, 11, 12]
      = Inr [\<lparr>val_k = None, val_d = None, val_rsi = None\<rparr>,
             \<lparr>val_k = None, val_d = None, val_rsi = None\<rparr>,
             \<lparr>val_k = None, val_d = None, val_rsi = None\<rparr>]
   \<and> calculate_with (\<lambda>closes period. Inl ZeroDivisionError) (\<lambda>vals period. Inl IndexError)
        (\<lambda>vals period. Inl TypeError)
        \<lparr>rsi_length = 14, stoch_length = 14, k_smooth = 3, d_smooth = 3\<rparr> [10, 11, 12]
      = Inr [\<lparr>val_k = None, val_d = None, val_rsi = None\<rparr>,
             \<lparr>val_k = None, val_d = None, val_rsi = None\<rparr>,
             \<lparr>val_k = None, val_d = None, val_rsi = None\<rparr>]"
  using calculate_short_circuit[of "[10, 11, 12]"
      "\<lparr>rsi_length = 14, stoch_length = 14, k_smooth = 3, d_smooth = 3\<rparr>"
      "\<lambda>closes period. Inl ZeroDivisionError" "\<lambda>vals period. Inl IndexError"
      "\<lambda>vals period. Inl TypeError"]
  by (simp add: numeral_3_eq_3)

text \<open>
  C8. For every price list and every configuration of four positive integers,
  \<open>calculate\<close> returns normally, and so does each stage on every input: no division
  by zero, no index out of range, no \<open>min\<close> or \<open>max\<close> of an empty window, no
  arithmetic on a null. Too little data gives null fields, not an exception.
\<close>

theorem calculate_never_raises:
  assumes "valid_config self"
  shows "(\<exists>rs. calculate_rsi closes (rsi_length self) = Inr rs)
    \<and> (\<exists>ks. calculate_stoch_k vals (stoch_length self) = Inr ks)
    \<and> (\<exists>sk. calculate_sma vals (k_smooth self) = Inr sk)
    \<and> (\<exists>ds. calculate_sma vals (d_smooth self) = Inr ds)
    \<and> (\<exists>out. calculate self closes = Inr out)
    \<and> (int (length closes) < min_length self \<longrightarrow>
         calculate self closes = Inr (replicate (length closes) null_value))"
proof -
  have pos: "0 < rsi_length self" "0 < stoch_length self" "0 < k_smooth self" "0 < d_smooth self"
    using assms by (simp_all add: valid_config_def)
  have "\<exists>rs. calculate_rsi closes (rsi_length self) = Inr rs"
    using calculate_rsi_total[OF pos(1), of closes] by blast
  moreover have "\<exists>ks. calculate_stoch_k vals (stoch_length self) = Inr ks"
    by (simp add: calculate_stoch_k_eq[OF pos(2)])
  moreover have "\<exists>sk. calculate_sma vals (k_smooth self) = Inr sk"
    by (simp add: calculate_sma_eq[OF pos(3)])
  moreover have "\<exists>ds. calculate_sma vals (d_smooth self) = Inr ds"
    by (simp add: calculate_sma_eq[OF pos(4)])
  moreover have "\<exists>out. calculate self closes = Inr out"
    using calculate_total[OF assms, of closes] by blast
  moreover have "int (length closes) < min_length self \<longrightarrow>
         calculate self closes = Inr (replicate (length closes) null_value)"
    by (simp add: calculate_def calculate_short)
  ultimately show ?thesis by blast
qed

theorem calculate_never_raises_witness:
  "(\<exists>rs. calculate_rsi [5, 5, 5, 5] 2 = Inr rs)
    \<and> (\<exists>ks. calculate_stoch_k [None, Some 100, Some 100] 2 = Inr ks)
    \<and> (\<exists>sk. calculate_sma [None, Some 100, Some 100] 1 = Inr sk)
    \<and> (\<exists>out. calculate \<lparr>rsi_length = 2, stoch_length = 2, k_smooth = 1, d_smooth = 1\<rparr> [5, 5, 5, 5] = Inr out)"
proof -
  have a: "valid_config \<lparr>rsi_length = 2, stoch_length = 2, k_smooth = 1, d_smooth = 1\<rparr>"
    by (simp add: valid_config_def)
  show ?thesis
    using calculate_never_raises[OF a, of "[5, 5, 5, 5]" "[None, Some 100, Some 100]"]
    by simp
qed

text \<open>
  C2, as the spec states it: every reading below index
  \<open>rsi_length + stoch_length + k_smooth + d_smooth - 3\<close> is null in all three
  fields. It fails: with the periods 1, 2, 1, 1 that index is 2, and for the prices
  1, 2, 3 the reading at index 1 already carries \<open>rsi = 100\<close>.
\<close>

theorem null_prefix_counterexample:
  "calculate \<lparr>rsi_length = 1, stoch_length = 2, k_smooth = 1, d_smooth = 1\<rparr> [1, 2, 3]
     = Inr [\<lparr>val_k = None, val_d = None, val_rsi = None\<rparr>,
            \<lparr>val_k = None, val_d = None, val_rsi = Some 100\<rparr>,
            \<lparr>val_k = Some 50, val_d = Some 50, val_rsi = Some 100\<rparr>]
   \<and> (1 :: int) < 1 + 2 + 1 + 1 - 3"
  by code_simp

text \<open>
  C2, amended. Each field has a null prefix of its own: \<open>rsi\<close> is null below
  index \<open>rsi_length\<close>, \<open>k\<close> below \<open>rsi_length + stoch_length + k_smooth - 2\<close>
  and \<open>d\<close> below \<open>rsi_length + stoch_length + k_smooth + d_smooth - 3\<close>; so a
  reading with all three fields non-null is never at an index below the last of
  these.
\<close>

theorem calculate_null_prefix:
  assumes "valid_config self" and "i < length closes"
  shows "\<exists>out. calculate self closes = Inr out
    \<and> (int i < rsi_length self \<longrightarrow> val_rsi (out ! i) = None)
    \<and> (int i < rsi_length self + stoch_length self + k_smooth self - 2 \<longrightarrow> val_k (out ! i) = None)
    \<and> (int i < rsi_length self + stoch_length self + k_smooth self + d_smooth self - 3
          \<longrightarrow> val_d (out ! i) = None)
    \<and> (val_k (out ! i) \<noteq> None \<and> val_d (out ! i) \<noteq> None \<and> val_rsi (out ! i) \<noteq> None
          \<longrightarrow> rsi_length self + stoch_length self + k_smooth self + d_smooth self - 3 \<le> int i)"
proof (cases "int (length closes) < min_length self")
  case True
  then have "calculate self closes = Inr (replicate (length closes) null_value)"
    by (simp add: calculate_def calculate_short)
  then show ?thesis using assms(2) by (simp add: null_value_def)
next
  case False
  then have long: "min_length self \<le> int (length closes)" by simp
  from calculate_null_pattern[OF assms(1) long assms(2)] show ?thesis by force
qed

theorem calculate_null_prefix_witness:
  "\<exists>out. calculate \<lparr>rsi_length = 2, stoch_length = 2, k_smooth = 1, d_smooth = 1\<rparr> [1, 2, 3, 4, 5] = Inr out
     \<and> val_rsi (out ! 1) = None \<and> val_k (out ! 2) = None \<and> val_d (out ! 2) = None"
proof -
  have a: "valid_config \<lparr>rsi_length = 2, stoch_length = 2, k_smooth = 1, d_smooth = 1\<rparr>"
    by (simp add: valid_config_def)
  have "(1::nat) < length [1, 2, 3, 4, 5 :: real]" "(2::nat) < length [1, 2, 3, 4, 5 :: real]"
    by simp_all
  from calculate_null_prefix[OF a this(1)] calculate_null_prefix[OF a this(2)]
  show ?thesis by auto
qed

text \<open>
  C4, as the spec states it: some configuration and some price list pass the length
  guard and still give an output that is null in every field of every reading. It
  fails: no configuration of four positive integers and no price list do.
\<close>

theorem guard_looser_counterexample:
  "\<not> (\<exists>(self :: StochasticRSICalculator) closes.
        valid_config self \<and> min_length self \<le> int (length closes)
        \<and> (\<exists>out. calculate self closes = Inr out
              \<and> (\<forall>r \<in> set out. val_k r = None \<and> val_d r = None \<and> val_rsi r = None)))"
proof
  assume "\<exists>(self :: StochasticRSICalculator) closes.
        valid_config self \<and> min_length self \<le> int (length closes)
        \<and> (\<exists>out. calculate self closes = Inr out
              \<and> (\<forall>r \<in> set out. val_k r = None \<and> val_d r = None \<and> val_rsi r = None))"
  then obtain self :: StochasticRSICalculator and closes out where
    cfg: "valid_config self" and long: "min_length self \<le> int (length closes)"
    and out: "calculate self closes = Inr out"
    and null: "\<forall>r \<in> set out. val_k r = None \<and> val_d r = None \<and> val_rsi r = None"
    by blast
  have i: "nat (rsi_length self) < length closes"
    using cfg long unfolding valid_config_def min_length_def by linarith
  from calculate_null_pattern[OF cfg long i] out
  have "length out = length closes" "val_rsi (out ! nat (rsi_length self)) \<noteq> None"
    using cfg by (simp_all add: valid_config_def)
  moreover have "out ! nat (rsi_length self) \<in> set out" using i calculation(1) by simp
  then have "val_rsi (out ! nat (rsi_length self)) = None" using null by simp
  ultimately show False by simp
qed

text \<open>
  C4, amended. The length guard is exact: whenever the price list passes it, the
  stages run and every reading from index
  \<open>rsi_length + stoch_length + k_smooth + d_smooth - 3\<close> on, which is the last
  index of a list of exactly the guard's length, is non-null in all three fields.
\<close>

theorem guard_is_exact:
  assumes "valid_config self"
    and "rsi_length self + stoch_length self + k_smooth self + d_smooth self - 2 \<le> int (length closes)"
  shows "\<exists>out. calculate self closes = Inr out
    \<and> nat (rsi_length self + stoch_length self + k_smooth self + d_smooth self - 3) < length out
    \<and> (\<forall>i < length out.
          rsi_length self + stoch_length self + k_smooth self + d_smooth self - 3 \<le> int i \<longrightarrow>
          val_k (out ! i) \<noteq> None \<and> val_d (out ! i) \<noteq> None \<and> val_rsi (out ! i) \<noteq> None)"
proof -
  have long: "min_length self \<le> int (length closes)" using assms(2) by (simp add: min_length_def)
  have pos: "0 < rsi_length self" "0 < stoch_length self" "0 < k_smooth self" "0 < d_smooth self"
    using assms(1) by (simp_all add: valid_config_def)
  obtain out where out: "calculate self closes = Inr out" "length out = length closes"
    using calculate_total[OF assms(1), of closes] by blast
  have "val_k (out ! i) \<noteq> None \<and> val_d (out ! i) \<noteq> None \<and> val_rsi (out ! i) \<noteq> None"
    if "i < length out"
      "rsi_length self + stoch_length self + k_smooth self + d_smooth self - 3 \<le> int i" for i
  proof -
    have i: "i < length closes" using that(1) out(2) by simp
    show ?thesis using calculate_null_pattern[OF assms(1) long i] out(1) that(2) pos by auto
  qed
  moreover have "nat (rsi_length self + stoch_length self + k_smooth self + d_smooth self - 3) < length out"
    using assms(2) pos out(2) by linarith
  ultimately show ?thesis using out(1) by blast
qed

theorem guard_is_exact_witness:
  "\<exists>out. calculate \<lparr>rsi_length = 1, stoch_length = 2, k_smooth = 1, d_smooth = 1\<rparr> [1, 2, 3] = Inr out
     \<and> val_k (out ! 2) \<noteq> None \<and> val_d (out ! 2) \<noteq> None \<and> val_rsi (out ! 2) \<noteq> None"
proof -
  have a: "valid_config \<lparr>rsi_length = 1, stoch_length = 2, k_smooth = 1, d_smooth = 1\<rparr>"
    by (simp add: valid_config_def)
  have b: "rsi_length \<lparr>rsi_length = 1, stoch_length = 2, k_smooth = 1, d_smooth = 1\<rparr>
      + stoch_length \<lparr>rsi_length = 1, stoch_length = 2, k_smooth = 1, d_smooth = 1\<rparr>
      + k_smooth \<lparr>rsi_length = 1, stoch_length = 2, k_smooth = 1, d_smooth = 1\<rparr>
      + d_smooth \<lparr>rsi_length = 1, stoch_length = 2, k_smooth = 1, d_smooth = 1\<rparr> - 2
      \<le> int (length [1, 2, 3 :: real])"
    by simp
  from guard_is_exact[OF a b] show ?thesis by auto
qed

text \<open>
  C5. In the stochastic transform, at an index whose trailing window of \<open>period\<close>
  RSI values holds no null, the raw %K is 50 when the window's maximum equals its
  minimum and \<open>(rsi[i] - min) / (max - min) * 100\<close> otherwise; in particular it is 50
  when all RSI values of the window are equal.
\<close>

theorem stoch_k_window_rule:
  assumes "0 < period" and "period - 1 \<le> int i" and "i < length rsi_values"
    and "\<forall>j. i + 1 - nat period \<le> j \<and> j \<le> i \<longrightarrow> rsi_values ! j \<noteq> None"
  shows "\<exists>ks. calculate_stoch_k rsi_values period = Inr ks
    \<and> (let W = {the (rsi_values ! j) | j. i + 1 - nat period \<le> j \<and> j \<le> i}
       in ks ! i = Some (if Max W = Min W then 50
                         else (the (rsi_values ! i) - Min W) / (Max W - Min W) * 100))
    \<and> ((\<forall>j. i + 1 - nat period \<le> j \<and> j \<le> i \<longrightarrow> rsi_values ! j = rsi_values ! i)
         \<longrightarrow> ks ! i = Some 50)"
proof -
  define W where "W = {the (rsi_values ! j) | j. i + 1 - nat period \<le> j \<and> j \<le> i}"
  define ks where "ks = map (\<lambda>j. if period - 1 \<le> int j then stoch_k_rule rsi_values period j else None)
        [0..<length rsi_values]"
  have run: "calculate_stoch_k rsi_values period = Inr ks"
    unfolding ks_def using assms(1) by (rule calculate_stoch_k_eq)
  have at_i: "ks ! i = stoch_k_rule rsi_values period i"
    using assms(2,3) by (simp add: ks_def)
  have nn: "None \<notin> set (window_of rsi_values period i)"
    using assms(4) window_None_iff[OF assms(1-3)] by blast
  have ki: "ks ! i = Some (if Max W = Min W then 50
                         else (the (rsi_values ! i) - Min W) / (Max W - Min W) * 100)"
    unfolding at_i using assms(1-3) nn W_def by (rule stoch_k_rule_complete)
  have flat: "ks ! i = Some 50"
    if eq: "\<forall>j. i + 1 - nat period \<le> j \<and> j \<le> i \<longrightarrow> rsi_values ! j = rsi_values ! i"
  proof -
    have "W = {the (rsi_values ! i)}"
      unfolding W_def using assms(1) eq by (rule window_values_flat)
    then have "Max W = Min W" by simp
    then show ?thesis unfolding ki by simp
  qed
  have "let W = W in ks ! i = Some (if Max W = Min W then 50
                         else (the (rsi_values ! i) - Min W) / (Max W - Min W) * 100)"
    unfolding Let_def by (rule ki)
  then show ?thesis using run flat unfolding W_def by blast
qed

text \<open>
  C7. In the smoothing stage, every index below \<open>period - 1\<close> is null; at an index
  \<open>i\<close> from \<open>period - 1\<close> on the output is null when some entry of the window
  \<open>[i - period + 1, i]\<close> is null, and the arithmetic mean of the window otherwise.
\<close>

theorem sma_window_rule:
  assumes "0 < period" and "i < length values"
  shows "\<exists>out. calculate_sma values period = Inr out \<and> length out = length values
    \<and> (int i < period - 1 \<longrightarrow> out ! i = None)
    \<and> (period - 1 \<le> int i \<longrightarrow>
         ((\<exists>j. i + 1 - nat period \<le> j \<and> j \<le> i \<and> values ! j = None) \<longrightarrow> out ! i = None)
       \<and> ((\<forall>j. i + 1 - nat period \<le> j \<and> j \<le> i \<longrightarrow> values ! j \<noteq> None) \<longrightarrow>
            out ! i = Some ((\<Sum>j = i + 1 - nat period..i. the (values ! j)) / real_of_int period)))"
proof -
  define out where "out = map (\<lambda>j. if period - 1 \<le> int j then sma_rule values period j else None)
        [0..<length values]"
  have run: "calculate_sma values period = Inr out"
    unfolding out_def using assms(1) by (rule calculate_sma_eq)
  have len: "length out = length values" by (simp add: out_def)
  have low: "int i < period - 1 \<longrightarrow> out ! i = None" using assms(2) by (simp add: out_def)
  have high: "((\<exists>j. i + 1 - nat period \<le> j \<and> j \<le> i \<and> values ! j = None) \<longrightarrow> out ! i = None)
       \<and> ((\<forall>j. i + 1 - nat period \<le> j \<and> j \<le> i \<longrightarrow> values ! j \<noteq> None) \<longrightarrow>
            out ! i = Some ((\<Sum>j = i + 1 - nat period..i. the (values ! j)) / real_of_int period))"
    if i: "period - 1 \<le> int i"
  proof -
    have oi: "out ! i = sma_rule values period i" using i assms(2) by (simp add: out_def)
    have n: "None \<in> set (window_of values period i)
        \<longleftrightarrow> (\<exists>j. i + 1 - nat period \<le> j \<and> j \<le> i \<and> values ! j = None)"
      using assms(1) i assms(2) by (rule window_None_iff)
    have s: "sum_list (map the (window_of values period i))
        = (\<Sum>j = i + 1 - nat period..i. the (values ! j))"
      using assms(1) i assms(2) by (rule window_of_sum)
    show ?thesis
    proof (cases "None \<in> set (window_of values period i)")
      case True
      then have "sma_rule values period i = None" by (simp add: sma_rule_def)
      then have "out ! i = None" using oi by simp
      moreover have "\<not> (\<forall>j. i + 1 - nat period \<le> j \<and> j \<le> i \<longrightarrow> values ! j \<noteq> None)"
        using True n by blast
      ultimately show ?thesis by blast
    next
      case False
      then have "sma_rule values period i
          = Some ((\<Sum>j = i + 1 - nat period..i. the (values ! j)) / real_of_int period)"
        using s by (simp add: sma_rule_def)
      then have "out ! i = Some ((\<Sum>j = i + 1 - nat period..i. the (values ! j)) / real_of_int period)"
        using oi by simp
      moreover have "\<not> (\<exists>j. i + 1 - nat period \<le> j \<and> j \<le> i \<and> values ! j = None)"
        using False n by blast
      ultimately show ?thesis by blast
    qed
  qed
  show ?thesis using run len low high by blast
qed




theorem stoch_k_window_rule_witness:
  "(\<exists>ks. calculate_stoch_k [Some 20, Some 60] 2 = Inr ks \<and> ks ! 1 = Some 100)
   \<and> (\<exists>ks. calculate_stoch_k [Some 30, Some 30] 2 = Inr ks \<and> ks ! 1 = Some 50)"
proof -
  have idx: "(1 + 1 - nat 2 \<le> j \<and> j \<le> (1::nat)) = (j = 0 \<or> j = 1)" for j :: nat
    by auto
  have p: "(0::int) < 2" "(2::int) - 1 \<le> int 1" by simp_all
  let ?xs = "[Some 20, Some 60] :: real option list"
  let ?ys = "[Some 30, Some 30] :: real option list"
  have lx: "1 < length ?xs" and ly: "1 < length ?ys" by simp_all
  have hx: "\<forall>j. 1 + 1 - nat 2 \<le> j \<and> j \<le> 1 \<longrightarrow> ?xs ! j \<noteq> None"
    unfolding idx by auto
  have hy: "\<forall>j. 1 + 1 - nat 2 \<le> j \<and> j \<le> 1 \<longrightarrow> ?ys ! j \<noteq> None"
    unfolding idx by auto
  have ey: "\<forall>j. 1 + 1 - nat 2 \<le> j \<and> j \<le> 1 \<longrightarrow> ?ys ! j = ?ys ! 1"
    unfolding idx by auto
  have "{the (?xs ! j) | j. j = 0 \<or> j = 1} = {the (?xs ! 0), the (?xs ! 1)}"
    by blast
  then have wx: "{the (?xs ! j) | j. 1 + 1 - nat 2 \<le> j \<and> j \<le> 1} = {20, 60}"
    unfolding idx by simp
  from stoch_k_window_rule[OF p(1) p(2) lx hx]
  obtain ks where ks: "calculate_stoch_k ?xs 2 = Inr ks"
    "let W = {the (?xs ! j) | j. 1 + 1 - nat 2 \<le> j \<and> j \<le> 1}
       in ks ! 1 = Some (if Max W = Min W then 50
                         else (the (?xs ! 1) - Min W) / (Max W - Min W) * 100)"
    by blast
  have "ks ! 1 = Some 100" using ks(2) unfolding wx Let_def by simp
  then have a: "\<exists>ks. calculate_stoch_k ?xs 2 = Inr ks \<and> ks ! 1 = Some 100"
    using ks(1) by blast
  from stoch_k_window_rule[OF p(1) p(2) ly hy] ey
  have b: "\<exists>ks. calculate_stoch_k ?ys 2 = Inr ks \<and> ks ! 1 = Some 50"
    by blast
  show ?thesis using a b by (rule conjI)
qed

theorem sma_window_rule_witness:
  "(\<exists>out. calculate_sma [Some 1, None, Some 3, Some 4] 2 = Inr out
     \<and> length out = length ([Some 1, None, Some 3, Some 4] :: real option list) \<and> out ! 0 = None)
   \<and> (\<exists>out. calculate_sma [Some 1, None, Some 3, Some 4] 2 = Inr out \<and> out ! 2 = None)
   \<and> (\<exists>out. calculate_sma [Some 1, None, Some 3, Some 4] 2 = Inr out \<and> out ! 3 = Some (7 / 2))"
proof -
  let ?xs = "[Some 1, None, Some 3, Some 4] :: real option list"
  have p: "(0::int) < 2" "0 < length ?xs" "2 < length ?xs" "3 < length ?xs" by simp_all
  have low: "int 0 < (2::int) - 1" by simp
  have hi2: "(2::int) - 1 \<le> int 2" and hi3: "(2::int) - 1 \<le> int 3" by simp_all
  have n2: "\<exists>j. 2 + 1 - nat 2 \<le> j \<and> j \<le> 2 \<and> ?xs ! j = None"
    by (rule exI[of _ 1]) simp
  have idx: "(3 + 1 - nat 2 \<le> j \<and> j \<le> (3::nat)) = (j = 2 \<or> j = 3)" for j :: nat
    by auto
  have f3: "\<forall>j. 3 + 1 - nat 2 \<le> j \<and> j \<le> 3 \<longrightarrow> ?xs ! j \<noteq> None"
    unfolding idx by (auto simp: numeral_3_eq_3 numeral_2_eq_2)
  have "{3 + 1 - nat 2..3} = {2, 3::nat}" by auto
  then have s3: "(\<Sum>j = 3 + 1 - nat 2..3. the (?xs ! j)) = 7"
    by (simp add: numeral_3_eq_3 numeral_2_eq_2)
  from sma_window_rule[OF p(1) p(2)] low
  have a: "\<exists>out. calculate_sma ?xs 2 = Inr out \<and> length out = length ?xs \<and> out ! 0 = None"
    by blast
  from sma_window_rule[OF p(1) p(3)] hi2 n2
  have b: "\<exists>out. calculate_sma ?xs 2 = Inr out \<and> out ! 2 = None"
    by blast
  from sma_window_rule[OF p(1) p(4)] hi3 f3
  have "\<exists>out. calculate_sma ?xs 2 = Inr out
      \<and> out ! 3 = Some ((\<Sum>j = 3 + 1 - nat 2..3. the (?xs ! j)) / real_of_int 2)"
    by blast
  then have c: "\<exists>out. calculate_sma ?xs 2 = Inr out \<and> out ! 3 = Some (7 / 2)"
    unfolding s3 by simp
  show ?thesis using a b c by blast
qed

text \<open>
  C6. In the RSI stage, at every index \<open>i\<close> from \<open>period\<close> on, the running
  averages after the round for \<open>i\<close> decide the value: when the average loss is zero
  the RSI is exactly 100 if the average gain is positive and exactly 0 otherwise (and
  it is \<open>100 - 100 / (1 + gain / loss)\<close> when the loss is not zero). For prices that
  are flat over the warm-up window, so for a flat series, the RSI at index
  \<open>period\<close> is 0.
\<close>

theorem rsi_zero_loss_rule:
  assumes "0 < period" and "period \<le> int i" and "i < length closes"
  shows "\<exists>avg_gain avg_loss vals rs.
      rsi_run closes period (int i + 1) = Inr (avg_gain, avg_loss, vals)
    \<and> calculate_rsi closes period = Inr rs
    \<and> (avg_loss = 0 \<longrightarrow> rs ! i = Some (if avg_gain > 0 then 100 else 0))
    \<and> (avg_loss \<noteq> 0 \<longrightarrow> rs ! i = Some (100 - 100 / (1 + avg_gain / avg_loss)))
    \<and> ((\<forall>j \<le> nat period. closes ! j = closes ! 0) \<longrightarrow> rs ! nat period = Some 0)"
proof -
  from rsi_at_index[OF assms]
  obtain ag al vals rs where a: "rsi_run closes period (int i + 1) = Inr (ag, al, vals)"
    "calculate_rsi closes period = Inr rs" "rs ! i = Some (rsi_formula ag al)" by blast
  have np: "period \<le> int (nat period)" "nat period < length closes" using assms by simp_all
  from rsi_at_index[OF assms(1) np]
  obtain ag0 al0 vals0 where b: "rsi_run closes period (int (nat period) + 1) = Inr (ag0, al0, vals0)"
    "rs ! nat period = Some (rsi_formula ag0 al0)" using a(2) by auto
  have run0: "rsi_run closes period (period + 1) = Inr (ag0, al0, vals0)"
    using b(1) assms(1) by simp
  have n: "period + 1 \<le> int (length closes)" using assms by simp
  have flat: "rs ! nat period = Some 0" if f: "\<forall>j \<le> nat period. closes ! j = closes ! 0"
  proof -
    have "ag0 = 0 \<and> al0 = 0"
    proof (rule rsi_flat_seed[OF assms(1) n _ run0])
      fix j assume "j \<le> nat period"
      then show "closes ! j = closes ! 0" using f by blast
    qed
    then show ?thesis using b(2) by (simp add: rsi_formula_def)
  qed
  have z: "al = 0 \<longrightarrow> rs ! i = Some (if ag > 0 then 100 else 0)"
    using a(3) by (simp add: rsi_formula_def)
  have nz: "al \<noteq> 0 \<longrightarrow> rs ! i = Some (100 - 100 / (1 + ag / al))"
    using a(3) by (simp add: rsi_formula_def)
  show ?thesis using a(1,2) z nz flat by blast
qed


theorem rsi_zero_loss_rule_witness:
  "(\<exists>rs. calculate_rsi [1, 2, 3] 1 = Inr rs \<and> rs ! 1 = Some 100)
   \<and> (\<exists>rs. calculate_rsi [5, 5, 5, 5] 2 = Inr rs \<and> rs ! 2 = Some 0)"
proof -
  have run: "rsi_run [1, 2, 3] 1 (int 1 + 1) = Inr (1, 0, [None, Some 100, None])"
    by code_simp
  have p: "(0::int) < 1" "(1::int) \<le> int 1" "1 < length [1, 2, 3 :: real]" by simp_all
  from rsi_zero_loss_rule[OF p]
  obtain ag al vals rs where r: "rsi_run [1, 2, 3] 1 (int 1 + 1) = Inr (ag, al, vals)"
    "calculate_rsi [1, 2, 3] 1 = Inr rs"
    "al = 0 \<longrightarrow> rs ! 1 = Some (if ag > 0 then 100 else 0)"
    by blast
  have "ag = 1" "al = 0" using r(1) run by simp_all
  then have "rs ! 1 = Some 100" using r(3) by simp
  then have a: "\<exists>rs. calculate_rsi [1, 2, 3] 1 = Inr rs \<and> rs ! 1 = Some 100"
    using r(2) by blast
  have q: "(0::int) < 2" "(2::int) \<le> int 2" "2 < length [5, 5, 5, 5 :: real]" by simp_all
  have flat: "\<forall>j \<le> nat 2. [5, 5, 5, 5 :: real] ! j = [5, 5, 5, 5] ! 0"
  proof (intro allI impI)
    fix j :: nat assume "j \<le> nat 2"
    then have "j = 0 \<or> j = 1 \<or> j = 2" by auto
    then show "[5, 5, 5, 5 :: real] ! j = [5, 5, 5, 5] ! 0" by (auto simp: numeral_2_eq_2)
  qed
  from rsi_zero_loss_rule[OF q] flat
  have "\<exists>rs. calculate_rsi [5, 5, 5, 5] 2 = Inr rs \<and> rs ! nat 2 = Some 0"
    by blast
  then have b: "\<exists>rs. calculate_rsi [5, 5, 5, 5] 2 = Inr rs \<and> rs ! 2 = Some 0"
    by simp
  show ?thesis using a b by (rule conjI)
qed






text \<open>
  C10. \<open>calculate\<close> is deterministic. Take two calls in any two stores, that is after
  any two histories: when the two calculator objects hold the same four values and the
  two price lists the same prices, the callers read the same outcome, the same
  exception or readings equal field by field, whatever else the stores hold and
  wherever the new objects are put. A call changes no object that existed before it,
  \<open>self\<close> and \<open>closes\<close> included, so the outcome is the same again after any
  history of calls into the module, and the module's function \<open>calculate_stoch_rsi\<close>,
  which makes a new calculator for every call, gives it too.
\<close>

theorem calculate_call_deterministic:
  assumes "heap st1 self1 = Some (Calculator c1)" and "heap st1 closes1 = Some (Prices closes)"
    and "heap st2 self2 = Some (Calculator c2)" and "heap st2 closes2 = Some (Prices closes)"
    and "rsi_length c1 = rsi_length c2" and "stoch_length c1 = stoch_length c2"
    and "k_smooth c1 = k_smooth c2" and "d_smooth c1 = d_smooth c2"
  shows "outcome (calculate_call self1 closes1 st1) = outcome (calculate_call self2 closes2 st2)
    \<and> outcome (calculate_call self1 closes1 st1) \<noteq> None
    \<and> (wf_store st1 \<longrightarrow>
         (\<forall>res st'. calculate_call self1 closes1 st1 = Some (res, st') \<longrightarrow>
            (\<forall>a < next_addr st1. heap st' a = heap st1 a))
       \<and> (\<forall>history. outcome (calculate_call self1 closes1 (run_calls history st1))
                    = outcome (calculate_call self1 closes1 st1))
       \<and> outcome (calculate_stoch_rsi_call closes1
            (rsi_length c1) (stoch_length c1) (k_smooth c1) (d_smooth c1) st1)
          = outcome (calculate_call self1 closes1 st1))"
proof -
  have o1: "outcome (calculate_call self1 closes1 st1) = Some (calculate c1 closes)"
    using assms(1,2) by (rule calculate_call_outcome)
  have o2: "outcome (calculate_call self2 closes2 st2) = Some (calculate c2 closes)"
    using assms(3,4) by (rule calculate_call_outcome)
  have same: "calculate c1 closes = calculate c2 closes"
    using assms(5-8) by (rule calculate_config_only)
  have frame: "\<forall>res st'. calculate_call self1 closes1 st1 = Some (res, st') \<longrightarrow>
            (\<forall>a < next_addr st1. heap st' a = heap st1 a)" if "wf_store st1"
    using calculate_call_frame[OF that] by blast
  have hist: "outcome (calculate_call self1 closes1 (run_calls history st1))
                    = outcome (calculate_call self1 closes1 st1)" if wf: "wf_store st1" for history
  proof -
    have lt: "self1 < next_addr st1" "closes1 < next_addr st1"
      using wf assms(1,2) by (simp_all add: wf_store_def)
    note f = run_calls_frame[OF wf, of history]
    have "heap (run_calls history st1) self1 = Some (Calculator c1)"
      "heap (run_calls history st1) closes1 = Some (Prices closes)"
      using f lt assms(1,2) by simp_all
    then have "outcome (calculate_call self1 closes1 (run_calls history st1)) = Some (calculate c1 closes)"
      by (rule calculate_call_outcome)
    then show ?thesis using o1 by simp
  qed
  have fresh: "outcome (calculate_stoch_rsi_call closes1
            (rsi_length c1) (stoch_length c1) (k_smooth c1) (d_smooth c1) st1)
          = outcome (calculate_call self1 closes1 st1)" if wf: "wf_store st1"
  proof -
    let ?c = "\<lparr>rsi_length = rsi_length c1, stoch_length = stoch_length c1,
        k_smooth = k_smooth c1, d_smooth = d_smooth c1\<rparr>"
    obtain c st' where n: "new_calculator (rsi_length c1) (stoch_length c1) (k_smooth c1) (d_smooth c1) st1
        = (c, st')"
      by (cases "new_calculator (rsi_length c1) (stoch_length c1) (k_smooth c1) (d_smooth c1) st1")
    have lt: "closes1 < next_addr st1" using wf assms(2) by (simp add: wf_store_def)
    have "heap st' c = Some (Calculator ?c)" using wf n by (rule new_calculator_frame(2))
    moreover have "heap st' closes1 = Some (Prices closes)"
      using new_calculator_frame(1)[OF wf n] lt assms(2) by simp
    ultimately have "outcome (calculate_call c closes1 st') = Some (calculate ?c closes)"
      by (rule calculate_call_outcome)
    moreover have "calculate ?c closes = calculate c1 closes"
      by (rule calculate_config_only) simp_all
    ultimately show ?thesis using o1 n by (simp add: calculate_stoch_rsi_call_def)
  qed
  show ?thesis using o1 o2 same frame hist fresh by simp
qed

theorem calculate_call_deterministic_witness:
  "outcome (calculate_call 0 1
      \<lparr>heap = [0 \<mapsto> Calculator \<lparr>rsi_length = 1, stoch_length = 2, k_smooth = 1, d_smooth = 1\<rparr>,
               1 \<mapsto> Prices [1, 2, 3]],
        next_addr = 2\<rparr>)
    = outcome (calculate_call 5 3
      \<lparr>heap = [0 \<mapsto> Prices [9], 3 \<mapsto> Prices [1, 2, 3],
               5 \<mapsto> Calculator \<lparr>rsi_length = 1, stoch_length = 2, k_smooth = 1, d_smooth = 1\<rparr>,
               7 \<mapsto> Reading \<lparr>val_k = Some 1, val_d = None, val_rsi = None\<rparr>],
        next_addr = 7\<rparr>)
   \<and> outcome (calculate_call 0 1
      \<lparr>heap = [0 \<mapsto> Calculator \<lparr>rsi_length = 1, stoch_length = 2, k_smooth = 1, d_smooth = 1\<rparr>,
               1 \<mapsto> Prices [1, 2, 3]],
        next_addr = 2\<rparr>)
    = Some (Inr [\<lparr>val_k = None, val_d = None, val_rsi = None\<rparr>,
                 \<lparr>val_k = None, val_d = None, val_rsi = Some 100\<rparr>,
                 \<lparr>val_k = Some 50, val_d = Some 50, val_rsi = Some 100\<rparr>])
   \<and> outcome (calculate_call 0 1
        (run_calls [Calculate 0 1, New 3 3 3 3, CalculateStochRsi 1 14 14 3 3, Calculate 0 1]
          \<lparr>heap = [0 \<mapsto> Calculator \<lparr>rsi_length = 1, stoch_length = 2, k_smooth = 1, d_smooth = 1\<rparr>,
                   1 \<mapsto> Prices [1, 2, 3]],
            next_addr = 2\<rparr>))
    = outcome (calculate_call 0 1
      \<lparr>heap = [0 \<mapsto> Calculator \<lparr>rsi_length = 1, stoch_length = 2, k_smooth = 1, d_smooth = 1\<rparr>,
               1 \<mapsto> Prices [1, 2, 3]],
        next_addr = 2\<rparr>)"
proof -
  let ?c = "\<lparr>rsi_length = 1, stoch_length = 2, k_smooth = 1, d_smooth = 1\<rparr>"
  let ?A = "\<lparr>heap = [0 \<mapsto> Calculator ?c, 1 \<mapsto> Prices [1, 2, 3]], next_addr = 2\<rparr>"
  let ?B = "\<lparr>heap = [0 \<mapsto> Prices [9], 3 \<mapsto> Prices [1, 2, 3], 5 \<mapsto> Calculator ?c,
               7 \<mapsto> Reading \<lparr>val_k = Some 1, val_d = None, val_rsi = None\<rparr>],
        next_addr = 7\<rparr>"
  have a: "heap ?A 0 = Some (Calculator ?c)" "heap ?A 1 = Some (Prices [1, 2, 3])" by simp_all
  have b: "heap ?B 5 = Some (Calculator ?c)" "heap ?B 3 = Some (Prices [1, 2, 3])" by simp_all
  have wf: "wf_store ?A" by (auto simp: wf_store_def split: if_splits)
  have val: "outcome (calculate_call 0 1 ?A)
    = Some (Inr [\<lparr>val_k = None, val_d = None, val_rsi = None\<rparr>,
                 \<lparr>val_k = None, val_d = None, val_rsi = Some 100\<rparr>,
                 \<lparr>val_k = Some 50, val_d = Some 50, val_rsi = Some 100\<rparr>])"
    by code_simp
  from calculate_call_deterministic[OF a b refl refl refl refl] wf
  have "outcome (calculate_call 0 1 ?A) = outcome (calculate_call 5 3 ?B)"
    and "\<forall>history. outcome (calculate_call 0 1 (run_calls history ?A)) = outcome (calculate_call 0 1 ?A)"
    by simp_all
  then show ?thesis using val by blast
qed

end
